theory Spec2Isabelle
  imports Main "HOL-Library.List_Lexorder" "HOL-Library.Multiset"
begin

unbundle bit_operations_syntax

section \<open>The Python values the module computes with\<close>

text \<open>
  A shallow embedding of \<^verbatim>\<open>ciscoconfparse/ccp_util.py\<close>: the address objects
  \<^verbatim>\<open>IPv4Obj\<close> and \<^verbatim>\<open>IPv6Obj\<close> and the range expander \<^verbatim>\<open>CiscoRange\<close>, on the Python 3
  branches of the module (\<^verbatim>\<open>sys.version_info[0] >= 3\<close>).

  Python integers are unbounded and are modelled by \<open>int\<close>. A Python \<^verbatim>\<open>str\<close> is modelled by
  \<open>string\<close>, one \<open>char\<close> for each character, so the model covers text whose characters
  have codes below 256. Every
  exception the module can raise is a value of \<open>error\<close>; a function that can raise returns
  \<open>error + 'a\<close>, with \<open>Inl\<close> for the exception.
\<close>

datatype error =
    ValueError
  | AssertionError
  | NotImplementedError
  | IndexError
  | TypeError
  | AttributeError

definition bindE :: "error + 'a \<Rightarrow> ('a \<Rightarrow> error + 'b) \<Rightarrow> error + 'b" where
  "bindE m f = (case m of Inl e \<Rightarrow> Inl e | Inr x \<Rightarrow> f x)"

subsection \<open>Strings: \<^verbatim>\<open>str()\<close>, \<^verbatim>\<open>int()\<close>, \<^verbatim>\<open>split\<close>, \<^verbatim>\<open>strip\<close>, \<^verbatim>\<open>join\<close>\<close>

text \<open>\<^verbatim>\<open>ord(c)\<close>, the code of a character.\<close>

definition ord :: "char \<Rightarrow> nat" where
  "ord c = of_char c"

definition isdigit :: "char \<Rightarrow> bool" where
  "isdigit c = (48 \<le> ord c \<and> ord c \<le> 57)"

text \<open>The characters \<^verbatim>\<open>str.strip()\<close> removes and the regular expression class \<^verbatim>\<open>\s\<close> matches:
  tab, newline, vertical tab, form feed, carriage return, the four separators 28 to 31, space,
  next line (133) and no-break space (160).\<close>

definition isspace :: "char \<Rightarrow> bool" where
  "isspace c = (ord c \<in> set [9, 10, 11, 12, 13, 28, 29, 30, 31, 32, 133, 160])"

text \<open>The characters \<^verbatim>\<open>int()\<close> skips around a literal: those of \<^verbatim>\<open>strip\<close> but the four
  separators.\<close>

definition int_space :: "char \<Rightarrow> bool" where
  "int_space c = (ord c \<in> set [9, 10, 11, 12, 13, 32, 133, 160])"

definition isalpha :: "char \<Rightarrow> bool" where
  "isalpha c = ((97 \<le> ord c \<and> ord c \<le> 122) \<or> (65 \<le> ord c \<and> ord c \<le> 90))"

definition strip_with :: "(char \<Rightarrow> bool) \<Rightarrow> string \<Rightarrow> string" where
  "strip_with P s = rev (dropWhile P (rev (dropWhile P s)))"

definition strip :: "string \<Rightarrow> string" where
  "strip s = strip_with isspace s"



text \<open>\<^verbatim>\<open>s.split(c)\<close> for a separator of one character: never the empty list.\<close>

fun split_on :: "char \<Rightarrow> string \<Rightarrow> string list" where
  "split_on c [] = [[]]"
| "split_on c (x # xs) =
     (if x = c then [] # split_on c xs
      else (case split_on c xs of [] \<Rightarrow> [[x]] | y # ys \<Rightarrow> (x # y) # ys))"

fun join_with :: "string \<Rightarrow> string list \<Rightarrow> string" where
  "join_with sep [] = []"
| "join_with sep [x] = x"
| "join_with sep (x # y # ys) = x @ sep @ join_with sep (y # ys)"

definition digit_chr :: "int \<Rightarrow> char" where
  "digit_chr d = ''0123456789abcdef'' ! nat d"

definition digit_val :: "char \<Rightarrow> int" where
  "digit_val c =
     (if isdigit c then int (ord c) - 48
      else if 97 \<le> ord c \<and> ord c \<le> 102 then int (ord c) - 87
      else int (ord c) - 55)"

text \<open>The decimal digits of a non-negative integer, most significant first.\<close>

function str_digits :: "int \<Rightarrow> string" where
  "str_digits n = (if n < 10 then [digit_chr n] else str_digits (n div 10) @ [digit_chr (n mod 10)])"
  by pat_completeness auto
termination
  by (relation "measure nat") auto

declare str_digits.simps [simp del]

text \<open>\<^verbatim>\<open>str(n)\<close> for an integer.\<close>

definition py_str :: "int \<Rightarrow> string" where
  "py_str n = (if n < 0 then CHR ''-'' # str_digits (- n) else str_digits n)"

definition digits_value :: "int \<Rightarrow> string \<Rightarrow> int" where
  "digits_value b ds = foldl (\<lambda>a c. b * a + digit_val c) 0 ds"

text \<open>The body of a decimal literal: digits, single underscores only between digits.\<close>

fun literal_body :: "string \<Rightarrow> bool" where
  "literal_body [] = False"
| "literal_body [c] = isdigit c"
| "literal_body (c # d # cs) =
     (isdigit c \<and> (if d = CHR ''_'' then literal_body cs else literal_body (d # cs)))"

text \<open>\<^verbatim>\<open>int(s)\<close> for a string: white space around, an optional sign, the literal's body.\<close>

definition py_int :: "string \<Rightarrow> error + int" where
  "py_int s =
     (let t = strip_with int_space s;
          neg = (case t of [] \<Rightarrow> False | c # _ \<Rightarrow> c = CHR ''-'');
          body = (case t of [] \<Rightarrow> [] | c # r \<Rightarrow> if c = CHR ''-'' \<or> c = CHR ''+'' then r else t)
      in if literal_body body
         then Inr ((if neg then - 1 else 1) * digits_value 10 (filter isdigit body))
         else Inl ValueError)"

text \<open>\<^verbatim>\<open>int(s, 16)\<close> for a string of hexadecimal digits, which is all the module passes to it
  (the groups of an exploded IPv6 address); signs, white space, a \<^verbatim>\<open>0x\<close> prefix and
  underscores are not modelled and never reach it.\<close>

definition ishex :: "char \<Rightarrow> bool" where
  "ishex c = (isdigit c \<or> (97 \<le> ord c \<and> ord c \<le> 102) \<or> (65 \<le> ord c \<and> ord c \<le> 70))"

definition py_int16 :: "string \<Rightarrow> error + int" where
  "py_int16 s = (if s \<noteq> [] \<and> list_all ishex s then Inr (digits_value 16 s) else Inl ValueError)"

text \<open>\<^verbatim>\<open>sum([conv(num) * (base ** idx) for idx, num in enumerate(num_strings)])\<close>, the
  enumeration starting at \<open>idx\<close>.\<close>

fun weighted_sum :: "int \<Rightarrow> (string \<Rightarrow> error + int) \<Rightarrow> nat \<Rightarrow> string list \<Rightarrow> error + int" where
  "weighted_sum base conv idx [] = Inr 0"
| "weighted_sum base conv idx (num # nums) =
     bindE (conv num) (\<lambda>v.
     bindE (weighted_sum base conv (Suc idx) nums) (\<lambda>r. Inr (v * base ^ idx + r)))"


section \<open>The \<^verbatim>\<open>ipaddress\<close> objects the module wraps\<close>

text \<open>
  \<^verbatim>\<open>ipaddress\<close> is Python's standard library, not code of the module; it is modelled by its
  documented behaviour. An address object is its integer. A network object is its network
  address and its prefix length; the library parses the text \<^verbatim>\<open>"addr/len"\<close> it is given, and
  the model takes the address integer and the prefix length that text denotes.
\<close>

record ip_network =
  network_address :: int
  prefixlen :: int

text \<open>\<^verbatim>\<open>_ip_int_from_prefix\<close>: the netmask of a prefix length, \<^verbatim>\<open>ALL_ONES ^ (ALL_ONES >> prefixlen)\<close>.\<close>

definition ip_int_from_prefix :: "int \<Rightarrow> int \<Rightarrow> int" where
  "ip_int_from_prefix all_ones plen = all_ones XOR drop_bit (nat plen) all_ones"

text \<open>\<^verbatim>\<open>IPv4Address(n)\<close> and \<^verbatim>\<open>IPv6Address(n)\<close> of an integer: \<^verbatim>\<open>AddressValueError\<close>, a
  \<^verbatim>\<open>ValueError\<close>, outside the family's range.\<close>

definition ip_address :: "nat \<Rightarrow> int \<Rightarrow> error + int" where
  "ip_address bits n = (if n < 0 \<or> 2 ^ bits - 1 < n then Inl ValueError else Inr n)"

definition IPv4Address :: "int \<Rightarrow> error + int" where
  "IPv4Address n = ip_address 32 n"

definition IPv6Address :: "int \<Rightarrow> error + int" where
  "IPv6Address n = ip_address 128 n"

text \<open>\<^verbatim>\<open>IPv4Network("addr/len", strict)\<close> and \<^verbatim>\<open>IPv6Network("addr/len", strict)\<close>: a prefix
  length outside the family's range is a \<^verbatim>\<open>NetmaskValueError\<close>, host bits under
  \<^verbatim>\<open>strict\<close> are a \<^verbatim>\<open>ValueError\<close>; otherwise the host bits are masked away.\<close>

definition ip_network_of :: "nat \<Rightarrow> int \<Rightarrow> int \<Rightarrow> bool \<Rightarrow> error + ip_network" where
  "ip_network_of bits addr plen strict =
     (let netmask = ip_int_from_prefix (2 ^ bits - 1) plen in
      if plen < 0 \<or> int bits < plen then Inl ValueError
      else if strict \<and> addr AND netmask \<noteq> addr then Inl ValueError
      else Inr \<lparr>network_address = addr AND netmask, prefixlen = plen\<rparr>)"

definition IPv4Network :: "int \<Rightarrow> int \<Rightarrow> bool \<Rightarrow> error + ip_network" where
  "IPv4Network addr plen strict = ip_network_of 32 addr plen strict"

definition IPv6Network :: "int \<Rightarrow> int \<Rightarrow> bool \<Rightarrow> error + ip_network" where
  "IPv6Network addr plen strict = ip_network_of 128 addr plen strict"

text \<open>\<^verbatim>\<open>broadcast_address\<close>: the network address with every host bit set.\<close>

definition broadcast_address :: "nat \<Rightarrow> ip_network \<Rightarrow> int" where
  "broadcast_address bits n =
     network_address n OR (ip_int_from_prefix (2 ^ bits - 1) (prefixlen n) XOR (2 ^ bits - 1))"

text \<open>The \<open>k\<close> digits of \<open>n\<close> in base \<open>b\<close>, most significant first: the four bytes of an IPv4
  address, the eight groups of an IPv6 address, the four hexadecimal digits of a group.\<close>

definition base_digits :: "int \<Rightarrow> nat \<Rightarrow> int \<Rightarrow> int list" where
  "base_digits b k n = map (\<lambda>i. n div b ^ i mod b) (rev [0..<k])"

text \<open>\<^verbatim>\<open>str()\<close> of an IPv4 address, dotted decimal, and of an IPv4 network.\<close>

definition ipv4_str :: "int \<Rightarrow> string" where
  "ipv4_str n = join_with ''.'' (map py_str (base_digits 256 4 n))"

definition ipv4_network_str :: "ip_network \<Rightarrow> string" where
  "ipv4_network_str n = ipv4_str (network_address n) @ ''/'' @ py_str (prefixlen n)"

text \<open>\<^verbatim>\<open>exploded\<close> of an IPv6 address, eight groups of four hexadecimal digits, and of an IPv6
  network.\<close>

definition ipv6_exploded :: "int \<Rightarrow> string" where
  "ipv6_exploded n = join_with '':'' (map (\<lambda>g. map digit_chr (base_digits 16 4 g)) (base_digits 65536 8 n))"

definition ipv6_network_exploded :: "ip_network \<Rightarrow> string" where
  "ipv6_network_exploded n = ipv6_exploded (network_address n) @ ''/'' @ py_str (prefixlen n)"

section \<open>\<^verbatim>\<open>IPv4Obj\<close> and \<^verbatim>\<open>IPv6Obj\<close>\<close>

text \<open>
  The two attributes the methods read: \<^verbatim>\<open>ip_object\<close>, the host address with its host bits,
  and \<^verbatim>\<open>network_object\<close>, the network of that address. (\<^verbatim>\<open>arg\<close> keeps the constructor's
  argument and is read by no method; \<^verbatim>\<open>dna\<close> names the class, which the type does here.)
\<close>

record IPv4Obj =
  ip_object :: int
  network_object :: ip_network

record IPv6Obj =
  ip_object :: int
  network_object :: ip_network

text \<open>\<^verbatim>\<open>IPv4Obj(arg)\<close> and \<^verbatim>\<open>IPv6Obj(arg)\<close> for an integer \<^verbatim>\<open>arg\<close>: the regular expression search
  raises \<^verbatim>\<open>TypeError\<close> and the \<^verbatim>\<open>isinstance(arg, int)\<close> branch builds a host network.\<close>

definition IPv4Obj_init :: "int \<Rightarrow> error + IPv4Obj" where
  "IPv4Obj_init arg =
     bindE (IPv4Address arg) (\<lambda>ip.
     bindE (IPv4Network ip 32 False) (\<lambda>n.
     Inr \<lparr>IPv4Obj.ip_object = ip, IPv4Obj.network_object = n\<rparr>))"

definition IPv6Obj_init :: "int \<Rightarrow> error + IPv6Obj" where
  "IPv6Obj_init arg =
     bindE (IPv6Address arg) (\<lambda>ip.
     bindE (IPv6Network ip 128 False) (\<lambda>n.
     Inr \<lparr>IPv6Obj.ip_object = ip, IPv6Obj.network_object = n\<rparr>))"

text \<open>The \<^verbatim>\<open>prefixlen\<close> property and its setter, which rebuilds the network from the host
  address, \<^verbatim>\<open>strict=False\<close>.\<close>

definition IPv4Obj_prefixlen :: "IPv4Obj \<Rightarrow> int" where
  "IPv4Obj_prefixlen self = prefixlen (IPv4Obj.network_object self)"

definition IPv6Obj_prefixlen :: "IPv6Obj \<Rightarrow> int" where
  "IPv6Obj_prefixlen self = prefixlen (IPv6Obj.network_object self)"

definition IPv4Obj_set_prefixlen :: "IPv4Obj \<Rightarrow> int \<Rightarrow> error + IPv4Obj" where
  "IPv4Obj_set_prefixlen self arg =
     bindE (IPv4Network (IPv4Obj.ip_object self) arg False) (\<lambda>n.
     Inr (self\<lparr>IPv4Obj.network_object := n\<rparr>))"

definition IPv6Obj_set_prefixlen :: "IPv6Obj \<Rightarrow> int \<Rightarrow> error + IPv6Obj" where
  "IPv6Obj_set_prefixlen self arg =
     bindE (IPv6Network (IPv6Obj.ip_object self) arg False) (\<lambda>n.
     Inr (self\<lparr>IPv6Obj.network_object := n\<rparr>))"

text \<open>The \<^verbatim>\<open>network\<close> property: a new network object from the text of \<^verbatim>\<open>network_object\<close>, with
  the library's default \<^verbatim>\<open>strict=True\<close>.\<close>

definition IPv4Obj_network :: "IPv4Obj \<Rightarrow> error + ip_network" where
  "IPv4Obj_network self =
     IPv4Network (network_address (IPv4Obj.network_object self))
       (prefixlen (IPv4Obj.network_object self)) True"

definition IPv6Obj_network :: "IPv6Obj \<Rightarrow> error + ip_network" where
  "IPv6Obj_network self =
     IPv6Network (network_address (IPv6Obj.network_object self))
       (prefixlen (IPv6Obj.network_object self)) True"

text \<open>\<^verbatim>\<open>numhosts\<close>: \<^verbatim>\<open>2 ** (32 - prefixlen)\<close>, \<^verbatim>\<open>2 ** (128 - prefixlen)\<close>.\<close>

definition IPv4Obj_numhosts :: "IPv4Obj \<Rightarrow> int" where
  "IPv4Obj_numhosts self = 2 ^ nat (32 - prefixlen (IPv4Obj.network_object self))"

definition IPv6Obj_numhosts :: "IPv6Obj \<Rightarrow> int" where
  "IPv6Obj_numhosts self = 2 ^ nat (128 - prefixlen (IPv6Obj.network_object self))"

text \<open>\<^verbatim>\<open>as_decimal\<close> and \<^verbatim>\<open>as_decimal_network\<close> (for \<^verbatim>\<open>IPv4Obj\<close> the second of the two
  definitions the class body gives, which replaces the first): the text of the address is
  split into its fields, reversed, and summed with the weights \<^verbatim>\<open>256 ** idx\<close>, \<^verbatim>\<open>65536 ** idx\<close>.\<close>

definition IPv4Obj_as_decimal :: "IPv4Obj \<Rightarrow> error + int" where
  "IPv4Obj_as_decimal self =
     weighted_sum 256 py_int 0 (rev (split_on CHR ''.'' (ipv4_str (IPv4Obj.ip_object self))))"

definition IPv4Obj_as_decimal_network :: "IPv4Obj \<Rightarrow> error + int" where
  "IPv4Obj_as_decimal_network self =
     bindE (IPv4Obj_network self) (\<lambda>n.
     weighted_sum 256 py_int 0
       (rev (split_on CHR ''.'' (hd (split_on CHR ''/'' (ipv4_network_str n))))))"

definition IPv6Obj_as_decimal :: "IPv6Obj \<Rightarrow> error + int" where
  "IPv6Obj_as_decimal self =
     weighted_sum 65536 py_int16 0 (rev (split_on CHR '':'' (ipv6_exploded (IPv6Obj.ip_object self))))"

definition IPv6Obj_as_decimal_network :: "IPv6Obj \<Rightarrow> error + int" where
  "IPv6Obj_as_decimal_network self =
     bindE (IPv6Obj_network self) (\<lambda>n.
     weighted_sum 65536 py_int16 0
       (rev (split_on CHR '':'' (hd (split_on CHR ''/'' (ipv6_network_exploded n))))))"


text \<open>\<^verbatim>\<open>broadcast\<close>: the network's broadcast address for \<^verbatim>\<open>IPv4Obj\<close>; for \<^verbatim>\<open>IPv6Obj\<close> the
  property's body is \<^verbatim>\<open>raise NotImplementedError("IPv6 does not have broadcasts")\<close>.\<close>

definition IPv4Obj_broadcast :: "IPv4Obj \<Rightarrow> error + int" where
  "IPv4Obj_broadcast self = Inr (broadcast_address 32 (IPv4Obj.network_object self))"

definition IPv6Obj_broadcast :: "IPv6Obj \<Rightarrow> error + int" where
  "IPv6Obj_broadcast self = Inl NotImplementedError"

subsection \<open>Operands and attribute access\<close>

text \<open>
  The comparison methods take any Python object as \<^verbatim>\<open>val\<close> and read attributes from it; no
  method looks at its class. The operands modelled: an object of either address class, an
  integer, a string. Reading an attribute that the operand's class does not define raises
  \<^verbatim>\<open>AttributeError\<close>.
\<close>

datatype pyval = V4 IPv4Obj | V6 IPv6Obj | PyInt int | PyStr string

fun getattr_prefixlen :: "pyval \<Rightarrow> error + int" where
  "getattr_prefixlen (V4 x) = Inr (IPv4Obj_prefixlen x)"
| "getattr_prefixlen (V6 x) = Inr (IPv6Obj_prefixlen x)"
| "getattr_prefixlen _ = Inl AttributeError"

fun getattr_as_decimal :: "pyval \<Rightarrow> error + int" where
  "getattr_as_decimal (V4 x) = IPv4Obj_as_decimal x"
| "getattr_as_decimal (V6 x) = IPv6Obj_as_decimal x"
| "getattr_as_decimal _ = Inl AttributeError"

fun getattr_as_decimal_network :: "pyval \<Rightarrow> error + int" where
  "getattr_as_decimal_network (V4 x) = IPv4Obj_as_decimal_network x"
| "getattr_as_decimal_network (V6 x) = IPv6Obj_as_decimal_network x"
| "getattr_as_decimal_network _ = Inl AttributeError"

fun getattr_numhosts :: "pyval \<Rightarrow> error + int" where
  "getattr_numhosts (V4 x) = Inr (IPv4Obj_numhosts x)"
| "getattr_numhosts (V6 x) = Inr (IPv6Obj_numhosts x)"
| "getattr_numhosts _ = Inl AttributeError"

fun getattr_network_object :: "pyval \<Rightarrow> error + ip_network" where
  "getattr_network_object (V4 x) = Inr (IPv4Obj.network_object x)"
| "getattr_network_object (V6 x) = Inr (IPv6Obj.network_object x)"
| "getattr_network_object _ = Inl AttributeError"

text \<open>\<^verbatim>\<open>try: ... except: raise ValueError(errmsg)\<close>: every exception of the body becomes a
  \<^verbatim>\<open>ValueError\<close>.\<close>

definition except_ValueError :: "error + 'a \<Rightarrow> error + 'a" where
  "except_ValueError m = (case m of Inl e \<Rightarrow> Inl ValueError | Inr x \<Rightarrow> Inr x)"

subsection \<open>\<^verbatim>\<open>__eq__\<close>, \<^verbatim>\<open>__gt__\<close>, \<^verbatim>\<open>__lt__\<close>, \<^verbatim>\<open>__contains__\<close>\<close>

text \<open>
  Each of these methods has the same text in \<^verbatim>\<open>IPv4Obj\<close> and in \<^verbatim>\<open>IPv6Obj\<close> (but for the
  constant in \<^verbatim>\<open>numhosts\<close>, read through \<^verbatim>\<open>self\<close>). The text is modelled once, over a \<^verbatim>\<open>self\<close>
  of either class, and named for each class below.
\<close>

definition obj_eq :: "pyval \<Rightarrow> pyval \<Rightarrow> error + bool" where
  "obj_eq self val = except_ValueError (
     bindE (getattr_as_decimal self) (\<lambda>self_dec.
     bindE (getattr_as_decimal val) (\<lambda>val_dec.
     if self_dec = val_dec
     then bindE (getattr_prefixlen self) (\<lambda>self_prefixlen.
          bindE (getattr_prefixlen val) (\<lambda>val_prefixlen.
          Inr (self_prefixlen = val_prefixlen)))
     else Inr False)))"

definition obj_gt :: "pyval \<Rightarrow> pyval \<Rightarrow> error + bool" where
  "obj_gt self val = except_ValueError (
     bindE (getattr_prefixlen val) (\<lambda>val_prefixlen.
     bindE (getattr_prefixlen self) (\<lambda>self_prefixlen.
     bindE (getattr_as_decimal_network val) (\<lambda>val_ndec.
     bindE (getattr_as_decimal_network self) (\<lambda>self_ndec.
     bindE (getattr_as_decimal val) (\<lambda>val_dec.
     bindE (getattr_as_decimal self) (\<lambda>self_dec.
     Inr (if self_ndec = val_ndec \<and> self_prefixlen = val_prefixlen then self_dec > val_dec
          else if self_ndec = val_ndec then self_prefixlen > val_prefixlen
          else self_ndec > val_ndec))))))))"

definition obj_lt :: "pyval \<Rightarrow> pyval \<Rightarrow> error + bool" where
  "obj_lt self val = except_ValueError (
     bindE (getattr_prefixlen val) (\<lambda>val_prefixlen.
     bindE (getattr_prefixlen self) (\<lambda>self_prefixlen.
     bindE (getattr_as_decimal_network val) (\<lambda>val_ndec.
     bindE (getattr_as_decimal_network self) (\<lambda>self_ndec.
     bindE (getattr_as_decimal val) (\<lambda>val_dec.
     bindE (getattr_as_decimal self) (\<lambda>self_dec.
     Inr (if self_ndec = val_ndec \<and> self_prefixlen = val_prefixlen then self_dec < val_dec
          else if self_ndec = val_ndec then self_prefixlen < val_prefixlen
          else self_ndec < val_ndec))))))))"

definition obj_contains :: "pyval \<Rightarrow> pyval \<Rightarrow> error + bool" where
  "obj_contains self val = except_ValueError (
     bindE (getattr_network_object self) (\<lambda>self_net.
     if prefixlen self_net = 0 then Inr True
     else bindE (getattr_network_object val) (\<lambda>val_net.
       if prefixlen self_net > prefixlen val_net then Inr False
       else bindE (getattr_as_decimal_network self) (\<lambda>self_ndec.
            bindE (getattr_as_decimal_network val) (\<lambda>val_ndec.
            if self_ndec \<le> val_ndec
            then bindE (getattr_numhosts self) (\<lambda>self_numhosts.
                 bindE (getattr_numhosts val) (\<lambda>val_numhosts.
                 Inr (self_ndec + self_numhosts - 1 \<ge> val_ndec + val_numhosts - 1)))
            else Inr False)))))"

definition IPv4Obj_eq :: "IPv4Obj \<Rightarrow> pyval \<Rightarrow> error + bool" where
  "IPv4Obj_eq self val = obj_eq (V4 self) val"

definition IPv4Obj_gt :: "IPv4Obj \<Rightarrow> pyval \<Rightarrow> error + bool" where
  "IPv4Obj_gt self val = obj_gt (V4 self) val"

definition IPv4Obj_lt :: "IPv4Obj \<Rightarrow> pyval \<Rightarrow> error + bool" where
  "IPv4Obj_lt self val = obj_lt (V4 self) val"

definition IPv4Obj_contains :: "IPv4Obj \<Rightarrow> pyval \<Rightarrow> error + bool" where
  "IPv4Obj_contains self val = obj_contains (V4 self) val"

definition IPv6Obj_eq :: "IPv6Obj \<Rightarrow> pyval \<Rightarrow> error + bool" where
  "IPv6Obj_eq self val = obj_eq (V6 self) val"

definition IPv6Obj_gt :: "IPv6Obj \<Rightarrow> pyval \<Rightarrow> error + bool" where
  "IPv6Obj_gt self val = obj_gt (V6 self) val"

definition IPv6Obj_lt :: "IPv6Obj \<Rightarrow> pyval \<Rightarrow> error + bool" where
  "IPv6Obj_lt self val = obj_lt (V6 self) val"

definition IPv6Obj_contains :: "IPv6Obj \<Rightarrow> pyval \<Rightarrow> error + bool" where
  "IPv6Obj_contains self val = obj_contains (V6 self) val"

subsection \<open>\<^verbatim>\<open>__add__\<close> and \<^verbatim>\<open>__sub__\<close>\<close>

text \<open>The operand is an integer (\<^verbatim>\<open>assert isinstance(val, int)\<close>, the type here). The two bounds
  are \<^verbatim>\<open>assert\<close> statements: a total out of range raises \<^verbatim>\<open>AssertionError\<close>.\<close>

definition IPv4Obj_add :: "IPv4Obj \<Rightarrow> int \<Rightarrow> error + IPv4Obj" where
  "IPv4Obj_add self val =
     (let orig_prefixlen = IPv4Obj_prefixlen self in
      bindE (IPv4Obj_as_decimal self) (\<lambda>dec.
      let total = dec + val in
      if \<not> total \<le> 4294967295 then Inl AssertionError
      else if \<not> total \<ge> 0 then Inl AssertionError
      else bindE (IPv4Obj_init total) (\<lambda>retval. IPv4Obj_set_prefixlen retval orig_prefixlen)))"

definition IPv4Obj_sub :: "IPv4Obj \<Rightarrow> int \<Rightarrow> error + IPv4Obj" where
  "IPv4Obj_sub self val =
     (let orig_prefixlen = IPv4Obj_prefixlen self in
      bindE (IPv4Obj_as_decimal self) (\<lambda>dec.
      let total = dec - val in
      if \<not> total \<le> 4294967295 then Inl AssertionError
      else if \<not> total \<ge> 0 then Inl AssertionError
      else bindE (IPv4Obj_init total) (\<lambda>retval. IPv4Obj_set_prefixlen retval orig_prefixlen)))"

definition IPv6Obj_add :: "IPv6Obj \<Rightarrow> int \<Rightarrow> error + IPv6Obj" where
  "IPv6Obj_add self val =
     (let orig_prefixlen = IPv6Obj_prefixlen self in
      bindE (IPv6Obj_as_decimal self) (\<lambda>dec.
      let total = dec + val in
      if \<not> total \<le> 340282366920938463463374607431768211455 then Inl AssertionError
      else if \<not> total \<ge> 0 then Inl AssertionError
      else bindE (IPv6Obj_init total) (\<lambda>retval. IPv6Obj_set_prefixlen retval orig_prefixlen)))"

definition IPv6Obj_sub :: "IPv6Obj \<Rightarrow> int \<Rightarrow> error + IPv6Obj" where
  "IPv6Obj_sub self val =
     (let orig_prefixlen = IPv6Obj_prefixlen self in
      bindE (IPv6Obj_as_decimal self) (\<lambda>dec.
      let total = dec - val in
      if \<not> total \<le> 340282366920938463463374607431768211455 then Inl AssertionError
      else if \<not> total \<ge> 0 then Inl AssertionError
      else bindE (IPv6Obj_init total) (\<lambda>retval. IPv6Obj_set_prefixlen retval orig_prefixlen)))"

text \<open>The objects the constructors and the \<^verbatim>\<open>prefixlen\<close> setter build: an address of the
  family, a prefix length of the family, and the network of that address.\<close>

definition IPv4Obj_ok :: "IPv4Obj \<Rightarrow> bool" where
  "IPv4Obj_ok x =
     (0 \<le> IPv4Obj.ip_object x \<and> IPv4Obj.ip_object x \<le> 4294967295 \<and>
      IPv4Network (IPv4Obj.ip_object x) (prefixlen (IPv4Obj.network_object x)) False
        = Inr (IPv4Obj.network_object x))"

definition IPv6Obj_ok :: "IPv6Obj \<Rightarrow> bool" where
  "IPv6Obj_ok x =
     (0 \<le> IPv6Obj.ip_object x \<and> IPv6Obj.ip_object x \<le> 340282366920938463463374607431768211455 \<and>
      IPv6Network (IPv6Obj.ip_object x) (prefixlen (IPv6Obj.network_object x)) False
        = Inr (IPv6Obj.network_object x))"


section \<open>Regular expressions\<close>

text \<open>
  The patterns of the module, matched the way Python's \<^verbatim>\<open>re\<close> matches them: by backtracking,
  every repetition greedy. \<open>rmatch r st\<close> lists the states in which a match of \<open>r\<close> begun in
  \<open>st\<close> can end, in the order backtracking tries them; the first one that lets the rest of
  the pattern match is the one \<^verbatim>\<open>re\<close> finds. A state is the position in the subject, the text
  from there on, and the named groups matched so far.
\<close>

datatype regex =
    Eps
  | Bol
  | Eol
  | Cls "char \<Rightarrow> bool"
  | Seq regex regex
  | Star regex
  | Group string regex

type_synonym mstate = "nat \<times> string \<times> (string \<Rightarrow> string option)"

text \<open>A repetition: once more (each way, and only where that consumed text), then no more. The
  bound counts the characters left, one at least going with each round.\<close>

fun star_iter :: "(mstate \<Rightarrow> mstate list) \<Rightarrow> nat \<Rightarrow> mstate \<Rightarrow> mstate list" where
  "star_iter f 0 st = [st]"
| "star_iter f (Suc n) st =
     concat (map (star_iter f n) (filter (\<lambda>st'. fst st < fst st') (f st))) @ [st]"

text \<open>\<^verbatim>\<open>^\<close> matches at the start of the subject; \<^verbatim>\<open>$\<close> at its end and before a newline that
  ends it.\<close>

primrec rmatch :: "regex \<Rightarrow> mstate \<Rightarrow> mstate list" where
  "rmatch Eps = (\<lambda>st. [st])"
| "rmatch Bol = (\<lambda>st. if fst st = 0 then [st] else [])"
| "rmatch Eol = (\<lambda>st. if fst (snd st) = [] \<or> fst (snd st) = [CHR 0x0A] then [st] else [])"
| "rmatch (Cls P) = (\<lambda>st.
     case fst (snd st) of
       [] \<Rightarrow> []
     | c # cs \<Rightarrow> if P c then [(Suc (fst st), cs, snd (snd st))] else [])"
| "rmatch (Seq a b) = (\<lambda>st. concat (map (rmatch b) (rmatch a st)))"
| "rmatch (Star r) = (\<lambda>st. star_iter (rmatch r) (length (fst (snd st))) st)"
| "rmatch (Group g r) = (\<lambda>st.
     map (\<lambda>st'. (fst st', fst (snd st'),
                 (snd (snd st'))(g \<mapsto> take (fst st' - fst st) (fst (snd st)))))
       (rmatch r st))"

definition Plus :: "regex \<Rightarrow> regex" where
  "Plus r = Seq r (Star r)"

definition Chr :: "char \<Rightarrow> regex" where
  "Chr c = Cls (\<lambda>x. x = c)"

text \<open>A text whose characters all stand for themselves in a pattern.\<close>

fun Lit :: "string \<Rightarrow> regex" where
  "Lit [] = Eps"
| "Lit (c # cs) = Seq (Chr c) (Lit cs)"

text \<open>\<^verbatim>\<open>pattern.search(s)\<close>: the first start, from the left, at which the pattern matches; the
  start and the state at the end of the match.\<close>

definition re_search :: "regex \<Rightarrow> string \<Rightarrow> (nat \<times> mstate) option" where
  "re_search r s =
     (case concat (map (\<lambda>k. map (Pair k) (rmatch r (k, drop k s, Map.empty))) [0..<Suc (length s)]) of
        [] \<Rightarrow> None
      | m # _ \<Rightarrow> Some m)"

text \<open>\<^verbatim>\<open>re.sub(pattern, "\g<1>", s)\<close> for a pattern that begins with \<^verbatim>\<open>^\<close>, and so matches once
  at most: the match is replaced by its group 1.\<close>

definition re_sub_group1 :: "regex \<Rightarrow> string \<Rightarrow> string" where
  "re_sub_group1 r s =
     (case re_search r s of
        None \<Rightarrow> s
      | Some (k, st) \<Rightarrow>
          take k s @ (case snd (snd st) ''1'' of None \<Rightarrow> [] | Some g \<Rightarrow> g) @ fst (snd st))"

text \<open>\<^verbatim>\<open>_CISCO_RANGE_ATOM_STR\<close> is \<^verbatim>\<open>\d+\s*\-*\s*\d*\<close>; \<^verbatim>\<open>_CISCO_RANGE_STR\<close> is
  \<^verbatim>\<open>^(?P<line_prefix>[a-zA-Z\s]*)(?P<slot_prefix>[\d\/]*\d+\/)*(?P<range_text>(\s*ATOM)*)$\<close>.\<close>

definition CISCO_RANGE_ATOM :: regex where
  "CISCO_RANGE_ATOM =
     Seq (Plus (Cls isdigit)) (Seq (Star (Cls isspace)) (Seq (Star (Chr CHR ''-''))
       (Seq (Star (Cls isspace)) (Star (Cls isdigit)))))"

definition RGX_CISCO_RANGE :: regex where
  "RGX_CISCO_RANGE =
     Seq Bol
    (Seq (Group ''line_prefix'' (Star (Cls (\<lambda>c. isalpha c \<or> isspace c))))
    (Seq (Star (Group ''slot_prefix''
            (Seq (Star (Cls (\<lambda>c. isdigit c \<or> c = CHR ''/'')))
            (Seq (Plus (Cls isdigit)) (Chr CHR ''/'')))))
    (Seq (Group ''range_text'' (Star (Seq (Star (Cls isspace)) CISCO_RANGE_ATOM)))
     Eol)))"


section \<open>\<^verbatim>\<open>CiscoRange\<close>\<close>

text \<open>
  \<^verbatim>\<open>result_type\<close> is the callable that renders an item; the two the module is used with are
  \<^verbatim>\<open>str\<close> (the default) and \<^verbatim>\<open>int\<close>. An item of \<^verbatim>\<open>_list\<close> is then a string or an integer.
  The fields \<open>r_text\<close> and \<open>r_list\<close> are the attributes \<^verbatim>\<open>text\<close> and \<^verbatim>\<open>_list\<close>.
\<close>

datatype rtype = RT_str | RT_int

datatype pyitem = S string | I int

fun apply_result_type :: "rtype \<Rightarrow> pyitem \<Rightarrow> error + pyitem" where
  "apply_result_type RT_str (S s) = Inr (S s)"
| "apply_result_type RT_str (I n) = Inr (S (py_str n))"
| "apply_result_type RT_int (S s) = bindE (py_int s) (\<lambda>n. Inr (I n))"
| "apply_result_type RT_int (I n) = Inr (I n)"

record CiscoRange =
  r_text :: string
  result_type :: rtype
  line_prefix :: string
  slot_prefix :: string
  range_text :: string
  r_list :: "pyitem list"

text \<open>
  \<^verbatim>\<open>list(set(retval))\<close> lists each element of \<^verbatim>\<open>retval\<close> once, in the iteration order of the
  set, which Python leaves to the implementation. The functions that build a set take that
  conversion as their first argument, \<open>list_set\<close>; \<open>is_list_set\<close> is all that the language
  promises of it.
\<close>

definition is_list_set :: "(int list \<Rightarrow> int list) \<Rightarrow> bool" where
  "is_list_set list_set = (\<forall>xs. distinct (list_set xs) \<and> set (list_set xs) = set xs)"

text \<open>Two such conversions: each element where it first occurs (an insertion-ordered set), 
  and ascending (what a hash table indexed by the integers themselves gives while they are
  smaller than the table).\<close>

fun first_seen :: "int list \<Rightarrow> int list" where
  "first_seen [] = []"
| "first_seen (x # xs) = x # filter (\<lambda>y. y \<noteq> x) (first_seen xs)"

definition ascending :: "int list \<Rightarrow> int list" where
  "ascending xs = sort (remdups xs)"

text \<open>\<^verbatim>\<open>_parse_range_text\<close>: the pattern is searched in the text before the first comma; the
  rest of the text is appended to the \<^verbatim>\<open>range_text\<close> group as it stands.\<close>

definition parse_range_text :: "string \<Rightarrow> error + (string \<times> string \<times> string)" where
  "parse_range_text txt =
     (let tmp = split_on CHR '','' txt in
      case re_search RGX_CISCO_RANGE (hd tmp) of
        None \<Rightarrow> Inl AssertionError
      | Some (k, st) \<Rightarrow>
          (let mm_result = snd (snd st);
               line_prefix = (case mm_result ''line_prefix'' of None \<Rightarrow> [] | Some g \<Rightarrow> g);
               slot_prefix = (case mm_result ''slot_prefix'' of None \<Rightarrow> [] | Some g \<Rightarrow> g)
           in case mm_result ''range_text'' of
                None \<Rightarrow> Inl TypeError
              | Some g \<Rightarrow>
                  Inr (line_prefix, slot_prefix,
                       if length (tl tmp) > 1 then g @ '','' @ join_with '','' (tl tmp)
                       else if length (tl tmp) = 1 then g @ '','' @ tmp ! 1
                       else g)))"

text \<open>\<^verbatim>\<open>range(begin, end)\<close>.\<close>

definition py_range :: "int \<Rightarrow> int \<Rightarrow> int list" where
  "py_range begin_n end_n = [begin_n..end_n - 1]"

text \<open>One round of the loop of \<^verbatim>\<open>_parse_dash_range\<close>: the integers an atom adds to \<^verbatim>\<open>retval\<close>.
  The unpacking \<^verbatim>\<open>begin, end = range_atom.split("-")\<close> raises \<^verbatim>\<open>ValueError\<close> unless the split
  has two parts, and both names are then the whole atom.\<close>

definition atom_bounds :: "string \<Rightarrow> error + (int \<times> int)" where
  "atom_bounds range_atom =
     (let parts = split_on CHR ''-'' range_atom;
          begin_s = (if length parts = 2 then parts ! 0 else range_atom);
          end_s = (if length parts = 2 then parts ! 1 else range_atom)
      in bindE (py_int (strip begin_s)) (\<lambda>begin_n.
         bindE (py_int (strip end_s)) (\<lambda>e.
         let end_n = e + 1 in
         if \<not> begin_n > - 1 then Inl AssertionError
         else if \<not> end_n > begin_n then Inl AssertionError
         else Inr (begin_n, end_n))))"

fun collect_atoms :: "string list \<Rightarrow> error + int list" where
  "collect_atoms [] = Inr []"
| "collect_atoms (range_atom # atoms) =
     bindE (atom_bounds range_atom) (\<lambda>(begin_n, end_n).
     bindE (collect_atoms atoms) (\<lambda>retval. Inr (py_range begin_n end_n @ retval)))"

definition parse_dash_range :: "(int list \<Rightarrow> int list) \<Rightarrow> string \<Rightarrow> error + int list" where
  "parse_dash_range list_set txt =
     bindE (collect_atoms (split_on CHR '','' txt)) (\<lambda>retval. Inr (list_set retval))"

text \<open>A list comprehension whose element expression can raise.\<close>

fun mapE :: "('a \<Rightarrow> error + 'b) \<Rightarrow> 'a list \<Rightarrow> error + 'b list" where
  "mapE f [] = Inr []"
| "mapE f (x # xs) = bindE (f x) (\<lambda>y. bindE (mapE f xs) (\<lambda>ys. Inr (y # ys)))"

text \<open>\<^verbatim>\<open>_range\<close>: \<^verbatim>\<open>combine\<close> and then \<^verbatim>\<open>result_type\<close>, over the parsed integers in their order.\<close>

definition combine :: "CiscoRange \<Rightarrow> int \<Rightarrow> string" where
  "combine self arg = line_prefix self @ slot_prefix self @ py_str arg"

definition CiscoRange_range :: "(int list \<Rightarrow> int list) \<Rightarrow> CiscoRange \<Rightarrow> error + pyitem list" where
  "CiscoRange_range list_set self =
     bindE (parse_dash_range list_set (range_text self)) (\<lambda>ns.
     mapE (\<lambda>ii. apply_result_type (result_type self) (S (combine self ii))) ns)"

text \<open>\<^verbatim>\<open>__init__\<close>. (With an empty text the attribute \<^verbatim>\<open>range_text\<close> is not set; no method reads
  it afterwards.)\<close>

definition CiscoRange_init :: "(int list \<Rightarrow> int list) \<Rightarrow> string \<Rightarrow> rtype \<Rightarrow> error + CiscoRange" where
  "CiscoRange_init list_set txt rt =
     (if txt \<noteq> []
      then bindE (parse_range_text txt) (\<lambda>(lp, sp, rtxt).
           let self = \<lparr>r_text = txt, result_type = rt, line_prefix = lp, slot_prefix = sp,
                       range_text = rtxt, r_list = []\<rparr>
           in bindE (CiscoRange_range list_set self) (\<lambda>l. Inr (self\<lparr>r_list := l\<rparr>)))
      else Inr \<lparr>r_text = txt, result_type = rt, line_prefix = [], slot_prefix = [],
                range_text = [], r_list = []\<rparr>)"

definition as_list :: "CiscoRange \<Rightarrow> pyitem list" where
  "as_list self = r_list self"


subsection \<open>The sequence protocol\<close>


definition del_at :: "nat \<Rightarrow> 'a list \<Rightarrow> 'a list" where
  "del_at i xs = take i xs @ drop (Suc i) xs"





text \<open>\<^verbatim>\<open>index\<close> and \<^verbatim>\<open>pop\<close> are inherited from \<^verbatim>\<open>MutableSequence\<close>: the first position of an
  equal item, or \<^verbatim>\<open>ValueError\<close>; and \<^verbatim>\<open>__delitem__\<close> at a position.\<close>

fun index_of :: "pyitem list \<Rightarrow> pyitem \<Rightarrow> error + nat" where
  "index_of [] v = Inl ValueError"
| "index_of (x # xs) v = (if x = v then Inr 0 else bindE (index_of xs v) (\<lambda>i. Inr (Suc i)))"

lemma index_of_length: "index_of xs v = Inr i \<Longrightarrow> i < length xs"
  by (induction xs arbitrary: i) (auto simp: bindE_def split: if_splits sum.splits)

text \<open>The inner loop of \<^verbatim>\<open>remove\<close>, \<^verbatim>\<open>while True: index = self.index(v); self.pop(index)\<close>,
  left through the \<^verbatim>\<open>ValueError\<close> of \<^verbatim>\<open>index\<close>.\<close>

function pop_all :: "pyitem \<Rightarrow> pyitem list \<Rightarrow> pyitem list" where
  "pop_all v l = (case index_of l v of Inl e \<Rightarrow> l | Inr i \<Rightarrow> pop_all v (del_at i l))"
  by pat_completeness auto
termination
  by (relation "measure (\<lambda>(v, l). length l)") (auto simp: del_at_def dest: index_of_length)

declare pop_all.simps [simp del]

text \<open>One round of the outer loop of \<^verbatim>\<open>remove\<close>. \<^verbatim>\<open>self.result_type(ii)\<close> stands inside the
  \<^verbatim>\<open>try\<close>: its \<^verbatim>\<open>ValueError\<close> is passed over like that of \<^verbatim>\<open>index\<close>.\<close>

definition remove_item :: "rtype \<Rightarrow> pyitem list \<Rightarrow> pyitem \<Rightarrow> error + pyitem list" where
  "remove_item rt l ii =
     (case apply_result_type rt ii of
        Inl e \<Rightarrow> if e = ValueError then Inr l else Inl e
      | Inr v \<Rightarrow> Inr (pop_all v l))"

fun remove_items :: "rtype \<Rightarrow> pyitem list \<Rightarrow> pyitem list \<Rightarrow> error + pyitem list" where
  "remove_items rt l [] = Inr l"
| "remove_items rt l (ii # iis) = bindE (remove_item rt l ii) (\<lambda>l'. remove_items rt l' iis)"

text \<open>\<^verbatim>\<open>remove\<close>: \<^verbatim>\<open>remove_obj = CiscoRange(arg)\<close>, with the default \<^verbatim>\<open>result_type=str\<close>.\<close>

definition CiscoRange_remove ::
    "(int list \<Rightarrow> int list) \<Rightarrow> CiscoRange \<Rightarrow> string \<Rightarrow> error + CiscoRange" where
  "CiscoRange_remove list_set self arg =
     bindE (CiscoRange_init list_set arg RT_str) (\<lambda>remove_obj.
     bindE (remove_items (result_type self) (r_list self) (r_list remove_obj)) (\<lambda>l.
     Inr (self\<lparr>r_list := l\<rparr>)))"

subsection \<open>\<^verbatim>\<open>insert\<close> and \<^verbatim>\<open>append\<close>\<close>


text \<open>\<^verbatim>\<open>sorted\<close> of a list of items: strings are compared by the codes of their characters, a
  proper prefix first; integers by value; a string and an integer are not comparable, and a
  list that holds both raises \<^verbatim>\<open>TypeError\<close>.\<close>

fun is_str :: "pyitem \<Rightarrow> bool" where
  "is_str (S s) = True"
| "is_str (I n) = False"

fun is_int :: "pyitem \<Rightarrow> bool" where
  "is_int (S s) = False"
| "is_int (I n) = True"

fun str_key :: "pyitem \<Rightarrow> nat list" where
  "str_key (S s) = map ord s"
| "str_key (I n) = []"

fun int_key :: "pyitem \<Rightarrow> int" where
  "int_key (S s) = 0"
| "int_key (I n) = n"

definition py_sorted :: "pyitem list \<Rightarrow> error + pyitem list" where
  "py_sorted l =
     (if list_all is_str l then Inr (sort_key str_key l)
      else if list_all is_int l then Inr (sort_key int_key l)
      else Inl TypeError)"




subsection \<open>\<^verbatim>\<open>compressed_str\<close>\<close>

text \<open>The first loop: the text of an item, the prefix taken off by
  \<^verbatim>\<open>re.sub(r"^{0}(\d+)$".format(prefix_str), "\g<1>", unicode_ii)\<close>, and \<^verbatim>\<open>int\<close>. The prefix
  is put into the pattern as it is; the parser stores letters, white space, digits and
  slashes there, and each of those stands for itself.\<close>

definition item_text :: "pyitem \<Rightarrow> string" where
  "item_text ii = (case ii of S s \<Rightarrow> s | I n \<Rightarrow> py_str n)"

definition item_number :: "string \<Rightarrow> pyitem \<Rightarrow> error + int" where
  "item_number prefix_str ii =
     py_int (re_sub_group1
       (Seq Bol (Seq (Lit prefix_str) (Seq (Group ''1'' (Plus (Cls isdigit))) Eol)))
       (item_text ii))"

text \<open>\<^verbatim>\<open>range_list\<close> holds integers and the string \<^verbatim>\<open>"-"\<close>.\<close>

datatype token = Num int | Dash

text \<open>One round of the second loop, at index \<open>ii\<close> of \<^verbatim>\<open>input\<close>.\<close>

definition range_step :: "int list \<Rightarrow> token list \<Rightarrow> nat \<Rightarrow> token list" where
  "range_step input range_list ii =
     (if ii + 1 < length input \<and> int ii - 1 > - 1
      then if input ! ii - input ! (ii - 1) = 1 \<and> input ! (ii + 1) - input ! ii = 1
           then if last range_list \<noteq> Dash then range_list @ [Dash] else range_list
           else range_list @ [Num (input ! ii)]
      else range_list)"

definition build_range_list :: "int list \<Rightarrow> token list" where
  "build_range_list input =
     (let range_list = foldl (range_step input) [Num (input ! 0)] [0..<length input]
      in if length input > 1 then range_list @ [Num (input ! (length input - 1))]
         else range_list)"

text \<open>The third loop: a comma between two entries of the same type, nothing between an
  integer and a dash.\<close>

definition token_str :: "token \<Rightarrow> string" where
  "token_str t = (case t of Num n \<Rightarrow> py_str n | Dash \<Rightarrow> ''-'')"

definition same_type :: "token \<Rightarrow> token \<Rightarrow> bool" where
  "same_type a b = ((a = Dash) = (b = Dash))"

fun render_from :: "token \<Rightarrow> token list \<Rightarrow> string" where
  "render_from prev [] = []"
| "render_from prev (t # ts) =
     (if \<not> same_type t prev then token_str t else '','' @ token_str t) @ render_from t ts"

definition render :: "string \<Rightarrow> token list \<Rightarrow> string" where
  "render prefix_str range_list =
     prefix_str @ token_str (hd range_list) @ render_from (hd range_list) (tl range_list)"

definition compressed_str :: "(int list \<Rightarrow> int list) \<Rightarrow> CiscoRange \<Rightarrow> error + string" where
  "compressed_str list_set self =
     (let prefix_str = line_prefix self @ slot_prefix self in
      bindE (mapE (item_number prefix_str) (r_list self)) (\<lambda>input.
      if length input = 0 then Inr []
      else Inr (render prefix_str (build_range_list (sort (list_set input))))))"

subsection \<open>\<^verbatim>\<open>__repr__\<close>, \<^verbatim>\<open>__str__\<close>, \<^verbatim>\<open>__eq__\<close>\<close>




subsection \<open>The methods of the class and the object they leave\<close>





subsection \<open>The methods inherited from \<^verbatim>\<open>MutableSequence\<close>\<close>












subsection \<open>The compression the specification describes\<close>

text \<open>
  The specification's words for \<^verbatim>\<open>compressed_str\<close>, to compare the loops above with: the
  sorted integers fall into maximal runs of consecutive integers; a run of three or more is
  written \<^verbatim>\<open>first-last\<close>, a run of one or two as its values; the runs are joined by commas
  behind the prefix. The runs are read from the left: an integer one above the last of the
  current run extends it, any other integer starts a new run.
\<close>

definition add_to_runs :: "int list list \<Rightarrow> int \<Rightarrow> int list list" where
  "add_to_runs rs z =
     (if rs \<noteq> [] \<and> z = last (last rs) + 1 then butlast rs @ [last rs @ [z]] else rs @ [[z]])"

definition runs :: "int list \<Rightarrow> int list list" where
  "runs xs = foldl add_to_runs [] xs"

text \<open>The entries of \<^verbatim>\<open>range_list\<close> that stand for a run, and the text of a run.\<close>

definition run_tokens :: "int list \<Rightarrow> token list" where
  "run_tokens r = (if 3 \<le> length r then [Num (hd r), Dash, Num (last r)] else map Num r)"

definition run_text :: "int list \<Rightarrow> string" where
  "run_text r =
     (if 3 \<le> length r then py_str (hd r) @ ''-'' @ py_str (last r)
      else join_with '','' (map py_str r))"

definition compress_spec :: "string \<Rightarrow> int list \<Rightarrow> string" where
  "compress_spec prefix_str xs = prefix_str @ join_with '','' (map run_text (runs xs))"

text \<open>What makes them maximal runs of consecutive integers: inside a run each integer is one
  above the one before it, and no run starts one above the last integer of the run before.\<close>

definition consecutive :: "int list \<Rightarrow> bool" where
  "consecutive r = (\<forall>i. Suc i < length r \<longrightarrow> r ! Suc i = r ! i + 1)"

fun separated :: "int list list \<Rightarrow> bool" where
  "separated (r1 # r2 # rs) = (hd r2 \<noteq> last r1 + 1 \<and> separated (r2 # rs))"
| "separated rs = True"

section \<open>Facts about the Python values\<close>

lemma bindE_Inr [simp]: "bindE (Inr x) f = f x" by (simp add: bindE_def)
lemma bindE_Inl [simp]: "bindE (Inl e) f = Inl e" by (simp add: bindE_def)

lemma digit_chr_isdigit: "0 \<le> d \<Longrightarrow> d < 10 \<Longrightarrow> isdigit (digit_chr d)"
proof -
  assume "0 \<le> d" "d < 10"
  then have "d = 0 \<or> d = 1 \<or> d = 2 \<or> d = 3 \<or> d = 4 \<or> d = 5 \<or> d = 6 \<or> d = 7 \<or> d = 8 \<or> d = 9"
    by arith
  then show ?thesis by (elim disjE) (simp_all add: digit_chr_def isdigit_def ord_def)
qed

lemma digit_val_chr: "0 \<le> d \<Longrightarrow> d < 16 \<Longrightarrow> digit_val (digit_chr d) = d"
proof -
  assume "0 \<le> d" "d < 16"
  then have "d = 0 \<or> d = 1 \<or> d = 2 \<or> d = 3 \<or> d = 4 \<or> d = 5 \<or> d = 6 \<or> d = 7 \<or> d = 8 \<or> d = 9
      \<or> d = 10 \<or> d = 11 \<or> d = 12 \<or> d = 13 \<or> d = 14 \<or> d = 15"
    by arith
  then show ?thesis by (elim disjE) (simp_all add: digit_chr_def digit_val_def isdigit_def ord_def)
qed

lemma digit_chr_ishex: "0 \<le> d \<Longrightarrow> d < 16 \<Longrightarrow> ishex (digit_chr d)"
proof -
  assume "0 \<le> d" "d < 16"
  then have "d = 0 \<or> d = 1 \<or> d = 2 \<or> d = 3 \<or> d = 4 \<or> d = 5 \<or> d = 6 \<or> d = 7 \<or> d = 8 \<or> d = 9
      \<or> d = 10 \<or> d = 11 \<or> d = 12 \<or> d = 13 \<or> d = 14 \<or> d = 15"
    by arith
  then show ?thesis by (elim disjE) (simp_all add: digit_chr_def ishex_def isdigit_def ord_def)
qed

lemma str_digits_isdigit: "0 \<le> n \<Longrightarrow> list_all isdigit (str_digits n)"
proof (induction n rule: str_digits.induct)
  case (1 n)
  show ?case
  proof (cases "n < 10")
    case True
    with 1(2) show ?thesis by (subst str_digits.simps) (simp add: digit_chr_isdigit)
  next
    case False
    then have "0 \<le> n div 10" by simp
    with 1 False show ?thesis
      by (subst str_digits.simps) (simp add: digit_chr_isdigit)
  qed
qed

lemma str_digits_nonempty: "str_digits n \<noteq> []"
  by (subst str_digits.simps) simp

lemma digits_value_snoc: "digits_value b (ds @ [c]) = b * digits_value b ds + digit_val c"
  by (simp add: digits_value_def)

lemma digits_value_str_digits: "0 \<le> n \<Longrightarrow> digits_value 10 (str_digits n) = n"
proof (induction n rule: str_digits.induct)
  case (1 n)
  show ?case
  proof (cases "n < 10")
    case True
    with 1(2) show ?thesis by (subst str_digits.simps) (simp add: digits_value_def digit_val_chr)
  next
    case False
    then have "0 \<le> n div 10" by simp
    with 1 False have "digits_value 10 (str_digits (n div 10)) = n div 10" by simp
    with False show ?thesis
      by (subst str_digits.simps) (simp add: digits_value_snoc digit_val_chr)
  qed
qed

lemma literal_body_digits: "ds \<noteq> [] \<Longrightarrow> list_all isdigit ds \<Longrightarrow> literal_body ds"
proof (induction ds rule: literal_body.induct)
  case (3 c d cs)
  then have "d \<noteq> CHR ''_''" by (auto simp: isdigit_def ord_def)
  with 3 show ?case by simp
qed simp_all

lemma strip_with_id: "s \<noteq> [] \<Longrightarrow> \<not> P (hd s) \<Longrightarrow> \<not> P (last s) \<Longrightarrow> strip_with P s = s"
proof -
  assume a: "s \<noteq> []" "\<not> P (hd s)" "\<not> P (last s)"
  then have 1: "dropWhile P s = s" by (simp add: dropWhile_eq_self_iff)
  from a have 2: "dropWhile P (rev s) = rev s" by (simp add: dropWhile_eq_self_iff hd_rev)
  show ?thesis by (simp add: strip_with_def 1 2)
qed

lemma isdigit_not_int_space: "isdigit c \<Longrightarrow> \<not> int_space c"
  by (auto simp: isdigit_def int_space_def)

lemma isdigit_not_sign: "isdigit c \<Longrightarrow> c \<noteq> CHR ''-'' \<and> c \<noteq> CHR ''+''"
  by (auto simp: isdigit_def ord_def)

lemma py_int_digits:
  assumes "ds \<noteq> []" "list_all isdigit ds"
  shows "py_int ds = Inr (digits_value 10 ds)"
proof -
  from assms have h: "isdigit (hd ds)" and l: "isdigit (last ds)"
    by (auto simp: list_all_iff)
  then have s: "strip_with int_space ds = ds"
    using assms(1) by (intro strip_with_id) (auto dest: isdigit_not_int_space)
  obtain c r where ds: "ds = c # r" using assms(1) by (cases ds) auto
  with h have c: "c \<noteq> CHR ''-''" "c \<noteq> CHR ''+''" using isdigit_not_sign by auto
  have f: "filter isdigit ds = ds" using assms(2) by (simp add: list_all_iff)
  have "literal_body ds" using assms by (rule literal_body_digits)
  then show ?thesis
    unfolding py_int_def s Let_def using c f by (simp add: ds)
qed

lemma py_int_py_str: "0 \<le> n \<Longrightarrow> py_int (py_str n) = Inr n"
  by (simp add: py_str_def py_int_digits str_digits_nonempty str_digits_isdigit digits_value_str_digits)


lemma split_on_nonempty: "split_on c xs \<noteq> []"
  by (induction xs) (auto split: list.splits)

lemma split_on_no_sep: "c \<notin> set xs \<Longrightarrow> split_on c xs = [xs]"
  by (induction xs) auto

lemma split_on_append: "c \<notin> set xs \<Longrightarrow> split_on c (xs @ c # ys) = xs # split_on c ys"
  by (induction xs) auto

lemma split_on_join:
  "xs \<noteq> [] \<Longrightarrow> (\<And>s. s \<in> set xs \<Longrightarrow> c \<notin> set s) \<Longrightarrow> split_on c (join_with [c] xs) = xs"
proof (induction "[c]" xs rule: join_with.induct)
  case 1
  then show ?case by simp
next
  case (2 x)
  then show ?case by (simp add: split_on_no_sep)
next
  case (3 x y ys)
  then have "split_on c (join_with [c] (y # ys)) = y # ys" by simp
  moreover have "c \<notin> set x" using 3 by simp
  ultimately show ?case by (simp add: split_on_append)
qed

lemma set_join_with: "set (join_with sep xs) \<subseteq> set sep \<union> (\<Union>s\<in>set xs. set s)"
  by (induction sep xs rule: join_with.induct) auto

lemma weighted_sum_upt:
  assumes "\<And>i. i < k \<Longrightarrow> conv (g i) = Inr (h i)"
  shows "j \<le> k \<Longrightarrow> weighted_sum b conv j (map g [j..<k]) = Inr (\<Sum>i = j..<k. h i * b ^ i)"
proof (induction "k - j" arbitrary: j)
  case 0
  then show ?case by simp
next
  case (Suc d)
  then have lt: "j < k" and step: "d = k - Suc j" and le: "Suc j \<le> k" by auto
  have "weighted_sum b conv (Suc j) (map g [Suc j..<k]) = Inr (\<Sum>i = Suc j..<k. h i * b ^ i)"
    using Suc.hyps(1) [OF step le] .
  with lt assms [OF lt] show ?case
    by (simp add: upt_conv_Cons sum.atLeast_Suc_lessThan)
qed

lemma digits_sum:
  fixes b n :: int
  assumes "0 < b"
  shows "(\<Sum>i = 0..<k. (n div b ^ i mod b) * b ^ i) = n mod b ^ k"
proof (induction k)
  case 0
  then show ?case by simp
next
  case (Suc k)
  have "n mod (b ^ k * b) = b ^ k * (n div b ^ k mod b) + n mod b ^ k"
    using assms by (intro zmod_zmult2_eq) simp
  with Suc show ?case by (simp add: mult.commute)
qed

lemma rev_base_digits: "rev (map f (base_digits b k n)) = map (\<lambda>i. f (n div b ^ i mod b)) [0..<k]"
  by (simp add: base_digits_def rev_map comp_def)

lemma weighted_sum_digits:
  assumes conv: "\<And>d. 0 \<le> d \<Longrightarrow> d < b \<Longrightarrow> conv (f d) = Inr d" and b: "0 < b"
  shows "weighted_sum b conv 0 (rev (map f (base_digits b k n))) = Inr (n mod b ^ k)"
proof -
  have "\<And>i. i < k \<Longrightarrow> conv (f (n div b ^ i mod b)) = Inr (n div b ^ i mod b)"
    using b by (intro conv) simp_all
  then have "weighted_sum b conv 0 (map (\<lambda>i. f (n div b ^ i mod b)) [0..<k])
      = Inr (\<Sum>i = 0..<k. (n div b ^ i mod b) * b ^ i)"
    by (intro weighted_sum_upt) simp_all
  then show ?thesis by (simp add: rev_base_digits digits_sum [OF b])
qed

lemma base_digits_nonempty: "0 < k \<Longrightarrow> base_digits b k n \<noteq> []"
  by (simp add: base_digits_def)

lemma base_digits_range: "0 < b \<Longrightarrow> d \<in> set (base_digits b k n) \<Longrightarrow> 0 \<le> d \<and> d < b"
  by (auto simp: base_digits_def)

lemma py_str_isdigit: "0 \<le> d \<Longrightarrow> list_all isdigit (py_str d)"
  by (simp add: py_str_def str_digits_isdigit)

lemma py_str_no_sep: "0 \<le> d \<Longrightarrow> \<not> isdigit c \<Longrightarrow> c \<notin> set (py_str d)"
  using py_str_isdigit [of d] by (auto simp: list_all_iff)

lemma ipv4_str_split:
  "split_on CHR ''.'' (ipv4_str n) = map py_str (base_digits 256 4 n)"
  unfolding ipv4_str_def
proof (rule split_on_join)
  show "map py_str (base_digits 256 4 n) \<noteq> []" by (simp add: base_digits_nonempty)
next
  fix s assume "s \<in> set (map py_str (base_digits 256 4 n))"
  then obtain d where "d \<in> set (base_digits 256 4 n)" "s = py_str d" by auto
  moreover from this have "0 \<le> d" using base_digits_range [of 256 d 4 n] by simp
  ultimately show "CHR ''.'' \<notin> set s"
    by (simp add: py_str_no_sep isdigit_def ord_def)
qed

lemma ipv4_str_no_slash: "CHR ''/'' \<notin> set (ipv4_str n)"
proof
  assume "CHR ''/'' \<in> set (ipv4_str n)"
  then obtain d where d: "d \<in> set (base_digits 256 4 n)" "CHR ''/'' \<in> set (py_str d)"
    using set_join_with [of "''.''" "map py_str (base_digits 256 4 n)"] by (auto simp: ipv4_str_def)
  then show False
    using base_digits_range [of 256 d 4 n] py_str_no_sep [of d "CHR ''/''"] by (simp add: isdigit_def ord_def)
qed

lemma ipv4_str_decimal:
  assumes "0 \<le> n" "n \<le> 4294967295"
  shows "weighted_sum 256 py_int 0 (rev (split_on CHR ''.'' (ipv4_str n))) = Inr n"
proof -
  have "weighted_sum 256 py_int 0 (rev (map py_str (base_digits 256 4 n))) = Inr (n mod 256 ^ 4)"
    by (rule weighted_sum_digits) (simp_all add: py_int_py_str)
  with assms show ?thesis by (simp add: ipv4_str_split)
qed

subsection \<open>The text of an address and its integer\<close>

lemma digits_value_Cons:
  "digits_value b (c # cs) = digit_val c * b ^ length cs + digits_value b cs"
proof (induction cs arbitrary: c rule: rev_induct)
  case Nil
  then show ?case by (simp add: digits_value_def)
next
  case (snoc x xs)
  have "digits_value b (c # xs @ [x]) = b * digits_value b (c # xs) + digit_val x"
    using digits_value_snoc [of b "c # xs" x] by simp
  then show ?case by (simp add: snoc digits_value_snoc algebra_simps)
qed

lemma base_digits_Suc: "base_digits b (Suc k) n = (n div b ^ k mod b) # base_digits b k n"
  by (simp add: base_digits_def)

lemma length_base_digits: "length (base_digits b k n) = k"
  by (simp add: base_digits_def)

lemma digits_value_base_digits:
  assumes "0 < b" "b \<le> 16"
  shows "digits_value b (map digit_chr (base_digits b k n)) = n mod b ^ k"
proof (induction k)
  case 0
  then show ?case by (simp add: base_digits_def digits_value_def)
next
  case (Suc k)
  have "0 \<le> n div b ^ k mod b" "n div b ^ k mod b < b" using assms(1) by simp_all
  then have d: "digit_val (digit_chr (n div b ^ k mod b)) = n div b ^ k mod b"
    using assms(2) by (intro digit_val_chr) linarith+
  have "n mod (b ^ k * b) = b ^ k * (n div b ^ k mod b) + n mod b ^ k"
    using assms(1) by (intro zmod_zmult2_eq) simp
  then show ?case
    by (simp add: base_digits_Suc digits_value_Cons d length_base_digits Suc mult.commute)
qed

lemma hex_group_ishex:
  assumes "c \<in> set (map digit_chr (base_digits 16 4 g))"
  shows "ishex c"
proof -
  from assms obtain d where d: "d \<in> set (base_digits 16 4 g)" "c = digit_chr d" by auto
  then have "0 \<le> d \<and> d < 16" by (intro base_digits_range) simp_all
  with d(2) show ?thesis by (simp add: digit_chr_ishex)
qed

lemma hex_group_value:
  assumes "0 \<le> g" "g < 65536"
  shows "py_int16 (map digit_chr (base_digits 16 4 g)) = Inr g"
proof -
  have hex: "list_all ishex (map digit_chr (base_digits 16 4 g))"
    unfolding list_all_iff using hex_group_ishex by blast
  have ne: "map digit_chr (base_digits 16 4 g) \<noteq> []"
    by (simp add: base_digits_nonempty)
  have "digits_value 16 (map digit_chr (base_digits 16 4 g)) = g mod 16 ^ 4"
    by (rule digits_value_base_digits) simp_all
  also have "\<dots> = g" using assms by simp
  finally show ?thesis using hex ne by (simp add: py_int16_def)
qed

lemma hex_group_no_sep:
  assumes "\<not> ishex c"
  shows "c \<notin> set (map digit_chr (base_digits 16 4 g))"
  using assms hex_group_ishex by blast

lemma ipv6_exploded_split:
  "split_on CHR '':'' (ipv6_exploded n)
     = map (\<lambda>g. map digit_chr (base_digits 16 4 g)) (base_digits 65536 8 n)"
  unfolding ipv6_exploded_def
proof (rule split_on_join)
  show "map (\<lambda>g. map digit_chr (base_digits 16 4 g)) (base_digits 65536 8 n) \<noteq> []"
    by (simp add: base_digits_nonempty)
next
  fix s assume "s \<in> set (map (\<lambda>g. map digit_chr (base_digits 16 4 g)) (base_digits 65536 8 n))"
  then obtain g where g: "g \<in> set (base_digits 65536 8 n)" "s = map digit_chr (base_digits 16 4 g)"
    by auto
  show "CHR '':'' \<notin> set s"
    unfolding g(2) by (rule hex_group_no_sep) (simp add: ishex_def isdigit_def ord_def)
qed

lemma ipv6_exploded_no_slash: "CHR ''/'' \<notin> set (ipv6_exploded n)"
proof
  assume "CHR ''/'' \<in> set (ipv6_exploded n)"
  then obtain g where g: "g \<in> set (base_digits 65536 8 n)"
      "CHR ''/'' \<in> set (map digit_chr (base_digits 16 4 g))"
    using set_join_with [of "'':''" "map (\<lambda>g. map digit_chr (base_digits 16 4 g)) (base_digits 65536 8 n)"]
    by (auto simp: ipv6_exploded_def)
  have "CHR ''/'' \<notin> set (map digit_chr (base_digits 16 4 g))"
    by (rule hex_group_no_sep) (simp add: ishex_def isdigit_def ord_def)
  with g(2) show False by simp
qed

lemma ipv6_exploded_decimal:
  assumes "0 \<le> n" "n \<le> 340282366920938463463374607431768211455"
  shows "weighted_sum 65536 py_int16 0 (rev (split_on CHR '':'' (ipv6_exploded n))) = Inr n"
proof -
  have "weighted_sum 65536 py_int16 0
          (rev (map (\<lambda>g. map digit_chr (base_digits 16 4 g)) (base_digits 65536 8 n)))
        = Inr (n mod 65536 ^ 8)"
    by (rule weighted_sum_digits) (simp_all add: hex_group_value)
  with assms show ?thesis by (simp add: ipv6_exploded_split)
qed

lemma hd_split_on_append: "c \<notin> set xs \<Longrightarrow> hd (split_on c (xs @ c # ys)) = xs"
  by (simp add: split_on_append)

lemma ip_network_of_Inr:
  "ip_network_of bits addr plen strict = Inr n \<Longrightarrow>
   0 \<le> plen \<and> plen \<le> int bits \<and>
   n = \<lparr>network_address = addr AND ip_int_from_prefix (2 ^ bits - 1) plen, prefixlen = plen\<rparr>"
  by (auto simp: ip_network_of_def Let_def split: if_splits)

lemma ip_network_of_strict:
  "ip_network_of bits addr plen False = Inr n \<Longrightarrow>
   ip_network_of bits (network_address n) (prefixlen n) True = Inr n"
  by (auto simp: ip_network_of_def Let_def split: if_splits)

lemma IPv4Obj_as_decimal_ok: "IPv4Obj_ok x \<Longrightarrow> IPv4Obj_as_decimal x = Inr (IPv4Obj.ip_object x)"
  by (simp add: IPv4Obj_ok_def IPv4Obj_as_decimal_def ipv4_str_decimal)

lemma IPv4Obj_network_range:
  assumes "IPv4Obj_ok x"
  shows "0 \<le> network_address (IPv4Obj.network_object x)
       \<and> network_address (IPv4Obj.network_object x) \<le> IPv4Obj.ip_object x
       \<and> 0 \<le> prefixlen (IPv4Obj.network_object x) \<and> prefixlen (IPv4Obj.network_object x) \<le> 32"
proof -
  from assms have n: "ip_network_of 32 (IPv4Obj.ip_object x) (prefixlen (IPv4Obj.network_object x)) False
      = Inr (IPv4Obj.network_object x)" and ip: "0 \<le> IPv4Obj.ip_object x"
    by (simp_all add: IPv4Obj_ok_def IPv4Network_def)
  from ip_network_of_Inr [OF n] have
    "network_address (IPv4Obj.network_object x)
       = IPv4Obj.ip_object x AND ip_int_from_prefix (2 ^ 32 - 1) (prefixlen (IPv4Obj.network_object x))"
    and "0 \<le> prefixlen (IPv4Obj.network_object x)" "prefixlen (IPv4Obj.network_object x) \<le> 32"
    by (cases "IPv4Obj.network_object x"; simp)+
  with ip show ?thesis by (simp add: AND_lower AND_upper1)
qed

lemma IPv4Obj_as_decimal_network_ok:
  assumes "IPv4Obj_ok x"
  shows "IPv4Obj_as_decimal_network x = Inr (network_address (IPv4Obj.network_object x))"
proof -
  from assms have "ip_network_of 32 (IPv4Obj.ip_object x) (prefixlen (IPv4Obj.network_object x)) False
      = Inr (IPv4Obj.network_object x)"
    by (simp add: IPv4Obj_ok_def IPv4Network_def)
  then have net: "IPv4Obj_network x = Inr (IPv4Obj.network_object x)"
    unfolding IPv4Obj_network_def IPv4Network_def by (rule ip_network_of_strict)
  have r: "0 \<le> network_address (IPv4Obj.network_object x)"
      "network_address (IPv4Obj.network_object x) \<le> 4294967295"
    using IPv4Obj_network_range [OF assms] assms by (simp_all add: IPv4Obj_ok_def)
  show ?thesis
    by (simp add: IPv4Obj_as_decimal_network_def net ipv4_network_str_def
        hd_split_on_append ipv4_str_no_slash ipv4_str_decimal r)
qed

subsection \<open>The attributes of a constructed object\<close>

lemma IPv6Obj_as_decimal_ok: "IPv6Obj_ok x \<Longrightarrow> IPv6Obj_as_decimal x = Inr (IPv6Obj.ip_object x)"
  by (simp add: IPv6Obj_ok_def IPv6Obj_as_decimal_def ipv6_exploded_decimal)

lemma IPv6Obj_network_range:
  assumes "IPv6Obj_ok x"
  shows "0 \<le> network_address (IPv6Obj.network_object x)
       \<and> network_address (IPv6Obj.network_object x) \<le> IPv6Obj.ip_object x
       \<and> 0 \<le> prefixlen (IPv6Obj.network_object x) \<and> prefixlen (IPv6Obj.network_object x) \<le> 128"
proof -
  from assms have n: "ip_network_of 128 (IPv6Obj.ip_object x) (prefixlen (IPv6Obj.network_object x)) False
      = Inr (IPv6Obj.network_object x)" and ip: "0 \<le> IPv6Obj.ip_object x"
    by (simp_all add: IPv6Obj_ok_def IPv6Network_def)
  from ip_network_of_Inr [OF n] have
    "network_address (IPv6Obj.network_object x)
       = IPv6Obj.ip_object x AND ip_int_from_prefix (2 ^ 128 - 1) (prefixlen (IPv6Obj.network_object x))"
    and "0 \<le> prefixlen (IPv6Obj.network_object x)" "prefixlen (IPv6Obj.network_object x) \<le> 128"
    by (cases "IPv6Obj.network_object x"; simp)+
  with ip show ?thesis by (simp add: AND_lower AND_upper1)
qed

lemma IPv6Obj_as_decimal_network_ok:
  assumes "IPv6Obj_ok x"
  shows "IPv6Obj_as_decimal_network x = Inr (network_address (IPv6Obj.network_object x))"
proof -
  from assms have "ip_network_of 128 (IPv6Obj.ip_object x) (prefixlen (IPv6Obj.network_object x)) False
      = Inr (IPv6Obj.network_object x)"
    by (simp add: IPv6Obj_ok_def IPv6Network_def)
  then have net: "IPv6Obj_network x = Inr (IPv6Obj.network_object x)"
    unfolding IPv6Obj_network_def IPv6Network_def by (rule ip_network_of_strict)
  have r: "0 \<le> network_address (IPv6Obj.network_object x)"
      "network_address (IPv6Obj.network_object x) \<le> 340282366920938463463374607431768211455"
    using IPv6Obj_network_range [OF assms] assms by (simp_all add: IPv6Obj_ok_def)
  show ?thesis
    by (simp add: IPv6Obj_as_decimal_network_def net ipv6_network_exploded_def
        hd_split_on_append ipv6_exploded_no_slash ipv6_exploded_decimal r)
qed

text \<open>The three integers a comparison reads from an operand of either class.\<close>

lemma getattr_V4:
  assumes "IPv4Obj_ok x"
  shows "getattr_as_decimal (V4 x) = Inr (IPv4Obj.ip_object x)"
    and "getattr_as_decimal_network (V4 x) = Inr (network_address (IPv4Obj.network_object x))"
    and "getattr_prefixlen (V4 x) = Inr (prefixlen (IPv4Obj.network_object x))"
  using assms
  by (simp_all add: IPv4Obj_as_decimal_ok IPv4Obj_as_decimal_network_ok IPv4Obj_prefixlen_def)

lemma getattr_V6:
  assumes "IPv6Obj_ok x"
  shows "getattr_as_decimal (V6 x) = Inr (IPv6Obj.ip_object x)"
    and "getattr_as_decimal_network (V6 x) = Inr (network_address (IPv6Obj.network_object x))"
    and "getattr_prefixlen (V6 x) = Inr (prefixlen (IPv6Obj.network_object x))"
  using assms
  by (simp_all add: IPv6Obj_as_decimal_ok IPv6Obj_as_decimal_network_ok IPv6Obj_prefixlen_def)

lemma except_ValueError_Inr [simp]: "except_ValueError (Inr x) = Inr x"
  by (simp add: except_ValueError_def)

lemma except_ValueError_Inl [simp]: "except_ValueError (Inl e) = Inl ValueError"
  by (simp add: except_ValueError_def)

text \<open>An object of \<open>IPv4Obj_ok\<close> is determined by its address and its prefix length.\<close>

lemma IPv4Obj_ok_eqI:
  assumes "IPv4Obj_ok a" "IPv4Obj_ok b"
    and "IPv4Obj.ip_object a = IPv4Obj.ip_object b"
    and "prefixlen (IPv4Obj.network_object a) = prefixlen (IPv4Obj.network_object b)"
  shows "a = b"
proof -
  from assms have "Inr (IPv4Obj.network_object a) = (Inr (IPv4Obj.network_object b) :: error + ip_network)"
    by (simp add: IPv4Obj_ok_def)
  then have "IPv4Obj.network_object a = IPv4Obj.network_object b" by simp
  with assms(3) show ?thesis by simp
qed

lemma IPv6Obj_ok_eqI:
  assumes "IPv6Obj_ok a" "IPv6Obj_ok b"
    and "IPv6Obj.ip_object a = IPv6Obj.ip_object b"
    and "prefixlen (IPv6Obj.network_object a) = prefixlen (IPv6Obj.network_object b)"
  shows "a = b"
proof -
  from assms have "Inr (IPv6Obj.network_object a) = (Inr (IPv6Obj.network_object b) :: error + ip_network)"
    by (simp add: IPv6Obj_ok_def)
  then have "IPv6Obj.network_object a = IPv6Obj.network_object b" by simp
  with assms(3) show ?thesis by simp
qed

section \<open>The address objects: ordering, arithmetic, containment\<close>

lemma IPv4Obj_ok_network:
  assumes "IPv4Obj_ok x"
  shows "network_address (IPv4Obj.network_object x)
     = IPv4Obj.ip_object x AND ip_int_from_prefix 4294967295 (prefixlen (IPv4Obj.network_object x))"
proof -
  from assms have "ip_network_of 32 (IPv4Obj.ip_object x) (prefixlen (IPv4Obj.network_object x)) False
      = Inr (IPv4Obj.network_object x)"
    by (simp add: IPv4Obj_ok_def IPv4Network_def)
  from ip_network_of_Inr [OF this] show ?thesis
    by (cases "IPv4Obj.network_object x") simp
qed

text \<open>
  Claim C1. On the objects the constructors build, \<^verbatim>\<open><\<close>, \<^verbatim>\<open>==\<close> and \<^verbatim>\<open>>\<close> return a boolean,
  exactly one of the three is true, \<^verbatim>\<open><\<close> and \<^verbatim>\<open>>\<close> are transitive, \<^verbatim>\<open>==\<close> holds iff the network
  integers, the prefix lengths and the host integers are equal, and \<^verbatim>\<open><\<close> compares the network
  integer first, then the prefix length (the shorter mask lower), then the host integer.
\<close>

theorem IPv4Obj_strict_total_order:
  fixes a b c :: IPv4Obj
  defines "na \<equiv> network_address (IPv4Obj.network_object a)"
      and "nb \<equiv> network_address (IPv4Obj.network_object b)"
      and "pa \<equiv> IPv4Obj_prefixlen a" and "pb \<equiv> IPv4Obj_prefixlen b"
      and "ha \<equiv> IPv4Obj.ip_object a" and "hb \<equiv> IPv4Obj.ip_object b"
  assumes "IPv4Obj_ok a" "IPv4Obj_ok b" "IPv4Obj_ok c"
  shows "IPv4Obj_as_decimal_network a = Inr na \<and> IPv4Obj_as_decimal a = Inr ha
       \<and> IPv4Obj_as_decimal_network b = Inr nb \<and> IPv4Obj_as_decimal b = Inr hb
       \<and> IPv4Obj_lt a (V4 b) = Inr (na < nb \<or> (na = nb \<and> (pa < pb \<or> (pa = pb \<and> ha < hb))))
       \<and> IPv4Obj_gt a (V4 b) = Inr (na > nb \<or> (na = nb \<and> (pa > pb \<or> (pa = pb \<and> ha > hb))))
       \<and> IPv4Obj_eq a (V4 b) = Inr (na = nb \<and> pa = pb \<and> ha = hb)
       \<and> (  (IPv4Obj_lt a (V4 b) = Inr True \<and> IPv4Obj_eq a (V4 b) = Inr False \<and> IPv4Obj_gt a (V4 b) = Inr False)
          \<or> (IPv4Obj_lt a (V4 b) = Inr False \<and> IPv4Obj_eq a (V4 b) = Inr True \<and> IPv4Obj_gt a (V4 b) = Inr False)
          \<or> (IPv4Obj_lt a (V4 b) = Inr False \<and> IPv4Obj_eq a (V4 b) = Inr False \<and> IPv4Obj_gt a (V4 b) = Inr True))
       \<and> (IPv4Obj_lt a (V4 b) = Inr True \<and> IPv4Obj_lt b (V4 c) = Inr True \<longrightarrow> IPv4Obj_lt a (V4 c) = Inr True)
       \<and> (IPv4Obj_gt a (V4 b) = Inr True \<and> IPv4Obj_gt b (V4 c) = Inr True \<longrightarrow> IPv4Obj_gt a (V4 c) = Inr True)"
proof -
  note ga = getattr_V4 [OF assms(7)] and gb = getattr_V4 [OF assms(8)] and gc = getattr_V4 [OF assms(9)]
  have lt: "IPv4Obj_lt x (V4 y) = Inr (network_address (IPv4Obj.network_object x) < network_address (IPv4Obj.network_object y)
        \<or> (network_address (IPv4Obj.network_object x) = network_address (IPv4Obj.network_object y)
          \<and> (IPv4Obj_prefixlen x < IPv4Obj_prefixlen y
            \<or> (IPv4Obj_prefixlen x = IPv4Obj_prefixlen y \<and> IPv4Obj.ip_object x < IPv4Obj.ip_object y))))"
    if "IPv4Obj_ok x" "IPv4Obj_ok y" for x y
    using getattr_V4 [OF that(1)] getattr_V4 [OF that(2)]
    by (auto simp: IPv4Obj_lt_def obj_lt_def IPv4Obj_prefixlen_def)
  have gt: "IPv4Obj_gt x (V4 y) = Inr (network_address (IPv4Obj.network_object x) > network_address (IPv4Obj.network_object y)
        \<or> (network_address (IPv4Obj.network_object x) = network_address (IPv4Obj.network_object y)
          \<and> (IPv4Obj_prefixlen x > IPv4Obj_prefixlen y
            \<or> (IPv4Obj_prefixlen x = IPv4Obj_prefixlen y \<and> IPv4Obj.ip_object x > IPv4Obj.ip_object y))))"
    if "IPv4Obj_ok x" "IPv4Obj_ok y" for x y
    using getattr_V4 [OF that(1)] getattr_V4 [OF that(2)]
    by (auto simp: IPv4Obj_gt_def obj_gt_def IPv4Obj_prefixlen_def)
  have "ha = hb \<and> pa = pb \<longrightarrow> na = nb"
    using IPv4Obj_ok_network [OF assms(7)] IPv4Obj_ok_network [OF assms(8)]
    by (simp add: na_def nb_def pa_def pb_def ha_def hb_def IPv4Obj_prefixlen_def)
  then have eq: "IPv4Obj_eq a (V4 b) = Inr (na = nb \<and> pa = pb \<and> ha = hb)"
    using ga gb
    by (auto simp: IPv4Obj_eq_def obj_eq_def IPv4Obj_prefixlen_def pa_def pb_def ha_def hb_def)
  have 1: "IPv4Obj_as_decimal_network a = Inr na \<and> IPv4Obj_as_decimal a = Inr ha
       \<and> IPv4Obj_as_decimal_network b = Inr nb \<and> IPv4Obj_as_decimal b = Inr hb"
    using ga gb by (simp add: na_def nb_def ha_def hb_def)
  have 2: "IPv4Obj_lt a (V4 b) = Inr (na < nb \<or> (na = nb \<and> (pa < pb \<or> (pa = pb \<and> ha < hb))))"
    using lt [OF assms(7,8)] by (simp add: na_def nb_def pa_def pb_def ha_def hb_def)
  have 3: "IPv4Obj_gt a (V4 b) = Inr (na > nb \<or> (na = nb \<and> (pa > pb \<or> (pa = pb \<and> ha > hb))))"
    using gt [OF assms(7,8)] by (simp add: na_def nb_def pa_def pb_def ha_def hb_def)
  have 4: "(IPv4Obj_lt a (V4 b) = Inr True \<and> IPv4Obj_eq a (V4 b) = Inr False \<and> IPv4Obj_gt a (V4 b) = Inr False)
          \<or> (IPv4Obj_lt a (V4 b) = Inr False \<and> IPv4Obj_eq a (V4 b) = Inr True \<and> IPv4Obj_gt a (V4 b) = Inr False)
          \<or> (IPv4Obj_lt a (V4 b) = Inr False \<and> IPv4Obj_eq a (V4 b) = Inr False \<and> IPv4Obj_gt a (V4 b) = Inr True)"
    unfolding 2 3 eq by auto
  have 5: "IPv4Obj_lt a (V4 b) = Inr True \<and> IPv4Obj_lt b (V4 c) = Inr True \<longrightarrow> IPv4Obj_lt a (V4 c) = Inr True"
    unfolding lt [OF assms(7,8)] lt [OF assms(8,9)] lt [OF assms(7,9)] by auto
  have 6: "IPv4Obj_gt a (V4 b) = Inr True \<and> IPv4Obj_gt b (V4 c) = Inr True \<longrightarrow> IPv4Obj_gt a (V4 c) = Inr True"
    unfolding gt [OF assms(7,8)] gt [OF assms(8,9)] gt [OF assms(7,9)] by auto
  from 1 2 3 eq 4 5 6 show ?thesis by blast
qed


lemma IPv4Obj_ok_literal:
  "IPv4Obj_ok \<lparr>IPv4Obj.ip_object = ip, IPv4Obj.network_object = \<lparr>network_address = na, prefixlen = p\<rparr>\<rparr>
     = (0 \<le> ip \<and> ip \<le> 4294967295 \<and> 0 \<le> p \<and> p \<le> 32 \<and> na = ip AND ip_int_from_prefix 4294967295 p)"
  by (auto simp: IPv4Obj_ok_def IPv4Network_def ip_network_of_def Let_def split: if_splits)

lemma IPv6Obj_ok_literal:
  "IPv6Obj_ok \<lparr>IPv6Obj.ip_object = ip, IPv6Obj.network_object = \<lparr>network_address = na, prefixlen = p\<rparr>\<rparr>
     = (0 \<le> ip \<and> ip \<le> 340282366920938463463374607431768211455 \<and> 0 \<le> p \<and> p \<le> 128
        \<and> na = ip AND ip_int_from_prefix 340282366920938463463374607431768211455 p)"
  by (auto simp: IPv6Obj_ok_def IPv6Network_def ip_network_of_def Let_def split: if_splits)

theorem IPv4Obj_strict_total_order_witness:
  "IPv4Obj_ok \<lparr>IPv4Obj.ip_object = 67108864, IPv4Obj.network_object = \<lparr>network_address = 67108864, prefixlen = 16\<rparr>\<rparr>
 \<and> IPv4Obj_ok \<lparr>IPv4Obj.ip_object = 67108864, IPv4Obj.network_object = \<lparr>network_address = 67108864, prefixlen = 8\<rparr>\<rparr>
 \<and> IPv4Obj_ok \<lparr>IPv4Obj.ip_object = 33554432, IPv4Obj.network_object = \<lparr>network_address = 33554432, prefixlen = 7\<rparr>\<rparr>
 \<and> IPv4Obj_gt \<lparr>IPv4Obj.ip_object = 67108864, IPv4Obj.network_object = \<lparr>network_address = 67108864, prefixlen = 16\<rparr>\<rparr>
       (V4 \<lparr>IPv4Obj.ip_object = 67108864, IPv4Obj.network_object = \<lparr>network_address = 67108864, prefixlen = 8\<rparr>\<rparr>) = Inr True
 \<and> IPv4Obj_lt \<lparr>IPv4Obj.ip_object = 67108864, IPv4Obj.network_object = \<lparr>network_address = 67108864, prefixlen = 16\<rparr>\<rparr>
       (V4 \<lparr>IPv4Obj.ip_object = 67108864, IPv4Obj.network_object = \<lparr>network_address = 67108864, prefixlen = 8\<rparr>\<rparr>) = Inr False
 \<and> IPv4Obj_eq \<lparr>IPv4Obj.ip_object = 67108864, IPv4Obj.network_object = \<lparr>network_address = 67108864, prefixlen = 16\<rparr>\<rparr>
       (V4 \<lparr>IPv4Obj.ip_object = 67108864, IPv4Obj.network_object = \<lparr>network_address = 67108864, prefixlen = 8\<rparr>\<rparr>) = Inr False"
proof -
  have a: "IPv4Obj_ok \<lparr>IPv4Obj.ip_object = 67108864, IPv4Obj.network_object = \<lparr>network_address = 67108864, prefixlen = 16\<rparr>\<rparr>"
    by (simp add: IPv4Obj_ok_literal ip_int_from_prefix_def)
  have b: "IPv4Obj_ok \<lparr>IPv4Obj.ip_object = 67108864, IPv4Obj.network_object = \<lparr>network_address = 67108864, prefixlen = 8\<rparr>\<rparr>"
    by (simp add: IPv4Obj_ok_literal ip_int_from_prefix_def)
  have c: "IPv4Obj_ok \<lparr>IPv4Obj.ip_object = 33554432, IPv4Obj.network_object = \<lparr>network_address = 33554432, prefixlen = 7\<rparr>\<rparr>"
    by (simp add: IPv4Obj_ok_literal ip_int_from_prefix_def)
  show ?thesis
    using IPv4Obj_strict_total_order [OF a b c] a b c by (simp add: IPv4Obj_prefixlen_def)
qed


text \<open>What \<^verbatim>\<open>__add__\<close> and \<^verbatim>\<open>__sub__\<close> return for a tot in range.\<close>

lemma IPv4Obj_build:
  assumes "0 \<le> tot" "tot \<le> 4294967295" "0 \<le> p" "p \<le> 32"
  shows "bindE (IPv4Obj_init tot) (\<lambda>retval. IPv4Obj_set_prefixlen retval p)
     = Inr \<lparr>IPv4Obj.ip_object = tot,
            IPv4Obj.network_object =
              \<lparr>network_address = tot AND ip_int_from_prefix 4294967295 p, prefixlen = p\<rparr>\<rparr>"
  using assms
  by (simp add: IPv4Obj_init_def IPv4Address_def ip_address_def IPv4Network_def ip_network_of_def
      IPv4Obj_set_prefixlen_def)

lemma IPv6Obj_build:
  assumes "0 \<le> tot" "tot \<le> 340282366920938463463374607431768211455" "0 \<le> p" "p \<le> 128"
  shows "bindE (IPv6Obj_init tot) (\<lambda>retval. IPv6Obj_set_prefixlen retval p)
     = Inr \<lparr>IPv6Obj.ip_object = tot,
            IPv6Obj.network_object =
              \<lparr>network_address = tot AND ip_int_from_prefix 340282366920938463463374607431768211455 p,
               prefixlen = p\<rparr>\<rparr>"
  using assms
  by (simp add: IPv6Obj_init_def IPv6Address_def ip_address_def IPv6Network_def ip_network_of_def
      IPv6Obj_set_prefixlen_def)

text \<open>\<open>IPv4Obj_ok\<close> and \<open>IPv6Obj_ok\<close> hold of what the constructor and the setter return, and
  every object they hold of is returned by the constructor followed by the setter.\<close>

lemma IPv4Obj_init_ok: "IPv4Obj_init n = Inr x \<Longrightarrow> IPv4Obj_ok x"
  by (auto simp: IPv4Obj_init_def IPv4Address_def ip_address_def IPv4Network_def ip_network_of_def
      IPv4Obj_ok_def bindE_def Let_def split: if_splits)

lemma IPv4Obj_set_prefixlen_ok:
  "IPv4Obj_ok x \<Longrightarrow> IPv4Obj_set_prefixlen x p = Inr y \<Longrightarrow> IPv4Obj_ok y"
  by (auto simp: IPv4Obj_set_prefixlen_def IPv4Network_def ip_network_of_def
      IPv4Obj_ok_def bindE_def Let_def split: if_splits)

lemma IPv4Obj_ok_built:
  assumes "IPv4Obj_ok x"
  shows "bindE (IPv4Obj_init (IPv4Obj.ip_object x))
           (\<lambda>retval. IPv4Obj_set_prefixlen retval (prefixlen (IPv4Obj.network_object x))) = Inr x"
proof -
  from assms have r: "0 \<le> IPv4Obj.ip_object x" "IPv4Obj.ip_object x \<le> 4294967295"
    by (simp_all add: IPv4Obj_ok_def)
  from IPv4Obj_build [OF r] IPv4Obj_network_range [OF assms] IPv4Obj_ok_network [OF assms]
  show ?thesis by (cases x) simp
qed

lemma IPv6Obj_init_ok: "IPv6Obj_init n = Inr x \<Longrightarrow> IPv6Obj_ok x"
  by (auto simp: IPv6Obj_init_def IPv6Address_def ip_address_def IPv6Network_def ip_network_of_def
      IPv6Obj_ok_def bindE_def Let_def split: if_splits)

lemma IPv6Obj_set_prefixlen_ok:
  "IPv6Obj_ok x \<Longrightarrow> IPv6Obj_set_prefixlen x p = Inr y \<Longrightarrow> IPv6Obj_ok y"
  by (auto simp: IPv6Obj_set_prefixlen_def IPv6Network_def ip_network_of_def
      IPv6Obj_ok_def bindE_def Let_def split: if_splits)

lemma IPv4Obj_add_ok:
  assumes "IPv4Obj_ok x" "0 \<le> IPv4Obj.ip_object x + n" "IPv4Obj.ip_object x + n \<le> 4294967295"
  shows "IPv4Obj_add x n
     = Inr \<lparr>IPv4Obj.ip_object = IPv4Obj.ip_object x + n,
            IPv4Obj.network_object =
              \<lparr>network_address = (IPv4Obj.ip_object x + n)
                   AND ip_int_from_prefix 4294967295 (prefixlen (IPv4Obj.network_object x)),
               prefixlen = prefixlen (IPv4Obj.network_object x)\<rparr>\<rparr>"
  using assms IPv4Obj_network_range [OF assms(1)]
  by (simp add: IPv4Obj_add_def IPv4Obj_as_decimal_ok IPv4Obj_prefixlen_def IPv4Obj_build)

lemma IPv4Obj_sub_ok:
  assumes "IPv4Obj_ok x" "0 \<le> IPv4Obj.ip_object x - n" "IPv4Obj.ip_object x - n \<le> 4294967295"
  shows "IPv4Obj_sub x n
     = Inr \<lparr>IPv4Obj.ip_object = IPv4Obj.ip_object x - n,
            IPv4Obj.network_object =
              \<lparr>network_address = (IPv4Obj.ip_object x - n)
                   AND ip_int_from_prefix 4294967295 (prefixlen (IPv4Obj.network_object x)),
               prefixlen = prefixlen (IPv4Obj.network_object x)\<rparr>\<rparr>"
  using assms IPv4Obj_network_range [OF assms(1)]
  by (simp add: IPv4Obj_sub_def IPv4Obj_as_decimal_ok IPv4Obj_prefixlen_def IPv4Obj_build)

lemma IPv6Obj_add_ok:
  assumes "IPv6Obj_ok x" "0 \<le> IPv6Obj.ip_object x + n"
    "IPv6Obj.ip_object x + n \<le> 340282366920938463463374607431768211455"
  shows "IPv6Obj_add x n
     = Inr \<lparr>IPv6Obj.ip_object = IPv6Obj.ip_object x + n,
            IPv6Obj.network_object =
              \<lparr>network_address = (IPv6Obj.ip_object x + n)
                   AND ip_int_from_prefix 340282366920938463463374607431768211455
                         (prefixlen (IPv6Obj.network_object x)),
               prefixlen = prefixlen (IPv6Obj.network_object x)\<rparr>\<rparr>"
  using assms IPv6Obj_network_range [OF assms(1)]
  by (simp add: IPv6Obj_add_def IPv6Obj_as_decimal_ok IPv6Obj_prefixlen_def IPv6Obj_build)

lemma IPv6Obj_sub_ok:
  assumes "IPv6Obj_ok x" "0 \<le> IPv6Obj.ip_object x - n"
    "IPv6Obj.ip_object x - n \<le> 340282366920938463463374607431768211455"
  shows "IPv6Obj_sub x n
     = Inr \<lparr>IPv6Obj.ip_object = IPv6Obj.ip_object x - n,
            IPv6Obj.network_object =
              \<lparr>network_address = (IPv6Obj.ip_object x - n)
                   AND ip_int_from_prefix 340282366920938463463374607431768211455
                         (prefixlen (IPv6Obj.network_object x)),
               prefixlen = prefixlen (IPv6Obj.network_object x)\<rparr>\<rparr>"
  using assms IPv6Obj_network_range [OF assms(1)]
  by (simp add: IPv6Obj_sub_def IPv6Obj_as_decimal_ok IPv6Obj_prefixlen_def IPv6Obj_build)

lemma IPv4Obj_add_sub:
  assumes "IPv4Obj_ok x" "0 \<le> IPv4Obj.ip_object x + n" "IPv4Obj.ip_object x + n \<le> 4294967295"
  shows "\<exists>y. IPv4Obj_add x n = Inr y \<and> IPv4Obj_ok y
            \<and> IPv4Obj_prefixlen y = IPv4Obj_prefixlen x
            \<and> IPv4Obj_as_decimal y = Inr (IPv4Obj.ip_object x + n)
            \<and> IPv4Obj_sub y n = Inr x \<and> IPv4Obj_eq x (V4 x) = Inr True"
proof -
  let ?y = "\<lparr>IPv4Obj.ip_object = IPv4Obj.ip_object x + n,
            IPv4Obj.network_object =
              \<lparr>network_address = (IPv4Obj.ip_object x + n)
                   AND ip_int_from_prefix 4294967295 (prefixlen (IPv4Obj.network_object x)),
               prefixlen = prefixlen (IPv4Obj.network_object x)\<rparr>\<rparr>"
  note r = IPv4Obj_network_range [OF assms(1)]
  have y: "IPv4Obj_add x n = Inr ?y" using assms by (rule IPv4Obj_add_ok)
  have oky: "IPv4Obj_ok ?y" using assms(2,3) r by (simp add: IPv4Obj_ok_literal)
  have x: "0 \<le> IPv4Obj.ip_object x" "IPv4Obj.ip_object x \<le> 4294967295"
    using assms(1) by (simp_all add: IPv4Obj_ok_def)
  have "IPv4Obj_sub ?y n = Inr \<lparr>IPv4Obj.ip_object = IPv4Obj.ip_object x,
            IPv4Obj.network_object =
              \<lparr>network_address = IPv4Obj.ip_object x
                   AND ip_int_from_prefix 4294967295 (prefixlen (IPv4Obj.network_object x)),
               prefixlen = prefixlen (IPv4Obj.network_object x)\<rparr>\<rparr>"
    using IPv4Obj_sub_ok [OF oky, of n] x by simp
  also have "\<dots> = Inr x"
    using IPv4Obj_ok_network [OF assms(1)] by (cases x) simp
  finally have s: "IPv4Obj_sub ?y n = Inr x" .
  have e: "IPv4Obj_eq x (V4 x) = Inr True"
    using getattr_V4 [OF assms(1)] by (simp add: IPv4Obj_eq_def obj_eq_def)
  show ?thesis
    using y oky s e by (simp add: IPv4Obj_prefixlen_def IPv4Obj_as_decimal_ok)
qed

lemma IPv6Obj_ok_network:
  assumes "IPv6Obj_ok x"
  shows "network_address (IPv6Obj.network_object x)
     = IPv6Obj.ip_object x
         AND ip_int_from_prefix 340282366920938463463374607431768211455 (prefixlen (IPv6Obj.network_object x))"
proof -
  from assms have "ip_network_of 128 (IPv6Obj.ip_object x) (prefixlen (IPv6Obj.network_object x)) False
      = Inr (IPv6Obj.network_object x)"
    by (simp add: IPv6Obj_ok_def IPv6Network_def)
  from ip_network_of_Inr [OF this] show ?thesis
    by (cases "IPv6Obj.network_object x") simp
qed

lemma IPv6Obj_add_sub:
  assumes "IPv6Obj_ok x" "0 \<le> IPv6Obj.ip_object x + n"
    "IPv6Obj.ip_object x + n \<le> 340282366920938463463374607431768211455"
  shows "\<exists>y. IPv6Obj_add x n = Inr y \<and> IPv6Obj_ok y
            \<and> IPv6Obj_prefixlen y = IPv6Obj_prefixlen x
            \<and> IPv6Obj_as_decimal y = Inr (IPv6Obj.ip_object x + n)
            \<and> IPv6Obj_sub y n = Inr x \<and> IPv6Obj_eq x (V6 x) = Inr True"
proof -
  let ?y = "\<lparr>IPv6Obj.ip_object = IPv6Obj.ip_object x + n,
            IPv6Obj.network_object =
              \<lparr>network_address = (IPv6Obj.ip_object x + n)
                   AND ip_int_from_prefix 340282366920938463463374607431768211455
                         (prefixlen (IPv6Obj.network_object x)),
               prefixlen = prefixlen (IPv6Obj.network_object x)\<rparr>\<rparr>"
  note r = IPv6Obj_network_range [OF assms(1)]
  have y: "IPv6Obj_add x n = Inr ?y" using assms by (rule IPv6Obj_add_ok)
  have oky: "IPv6Obj_ok ?y" using assms(2,3) r by (simp add: IPv6Obj_ok_literal)
  have x: "0 \<le> IPv6Obj.ip_object x" "IPv6Obj.ip_object x \<le> 340282366920938463463374607431768211455"
    using assms(1) by (simp_all add: IPv6Obj_ok_def)
  have "IPv6Obj_sub ?y n = Inr \<lparr>IPv6Obj.ip_object = IPv6Obj.ip_object x,
            IPv6Obj.network_object =
              \<lparr>network_address = IPv6Obj.ip_object x
                   AND ip_int_from_prefix 340282366920938463463374607431768211455
                         (prefixlen (IPv6Obj.network_object x)),
               prefixlen = prefixlen (IPv6Obj.network_object x)\<rparr>\<rparr>"
    using IPv6Obj_sub_ok [OF oky, of n] x by simp
  also have "\<dots> = Inr x"
    using IPv6Obj_ok_network [OF assms(1)] by (cases x) simp
  finally have s: "IPv6Obj_sub ?y n = Inr x" .
  have e: "IPv6Obj_eq x (V6 x) = Inr True"
    using getattr_V6 [OF assms(1)] by (simp add: IPv6Obj_eq_def obj_eq_def)
  show ?thesis
    using y oky s e by (simp add: IPv6Obj_prefixlen_def IPv6Obj_as_decimal_ok)
qed

text \<open>
  Claim C5. For an address object and an integer \<open>n\<close> with the sum inside the family's range,
  \<^verbatim>\<open>addr + n\<close> has the prefix length of \<^verbatim>\<open>addr\<close> and the host integer plus \<open>n\<close>, and
  \<^verbatim>\<open>(addr + n) - n\<close> is \<^verbatim>\<open>addr\<close> again, with its prefix length, and equal to it under \<^verbatim>\<open>==\<close>.
  A sum or a difference outside \<open>[0, 4294967295]\<close> (for \<^verbatim>\<open>IPv6Obj\<close>, outside
  \<open>[0, 2\<^sup>1\<^sup>2\<^sup>8 - 1]\<close>) raises the error of the failed \<^verbatim>\<open>assert\<close>, \<^verbatim>\<open>AssertionError\<close>;
  nothing wraps or clamps.
\<close>

theorem add_sub_round_trip:
  assumes "IPv4Obj_ok addr" "IPv6Obj_ok addr6"
  shows "(0 \<le> IPv4Obj.ip_object addr + n \<and> IPv4Obj.ip_object addr + n \<le> 4294967295 \<longrightarrow>
            (\<exists>y. IPv4Obj_add addr n = Inr y
                \<and> IPv4Obj_prefixlen y = IPv4Obj_prefixlen addr
                \<and> IPv4Obj_as_decimal y = Inr (IPv4Obj.ip_object addr + n)
                \<and> (\<exists>z. IPv4Obj_sub y n = Inr z
                      \<and> IPv4Obj_prefixlen z = IPv4Obj_prefixlen addr
                      \<and> IPv4Obj_eq z (V4 addr) = Inr True \<and> z = addr)))
       \<and> (\<not> (0 \<le> IPv4Obj.ip_object addr + n \<and> IPv4Obj.ip_object addr + n \<le> 4294967295) \<longrightarrow>
            IPv4Obj_add addr n = Inl AssertionError)
       \<and> (\<not> (0 \<le> IPv4Obj.ip_object addr - n \<and> IPv4Obj.ip_object addr - n \<le> 4294967295) \<longrightarrow>
            IPv4Obj_sub addr n = Inl AssertionError)
       \<and> (0 \<le> IPv6Obj.ip_object addr6 + m
            \<and> IPv6Obj.ip_object addr6 + m \<le> 340282366920938463463374607431768211455 \<longrightarrow>
            (\<exists>y. IPv6Obj_add addr6 m = Inr y
                \<and> IPv6Obj_prefixlen y = IPv6Obj_prefixlen addr6
                \<and> IPv6Obj_as_decimal y = Inr (IPv6Obj.ip_object addr6 + m)
                \<and> (\<exists>z. IPv6Obj_sub y m = Inr z
                      \<and> IPv6Obj_prefixlen z = IPv6Obj_prefixlen addr6
                      \<and> IPv6Obj_eq z (V6 addr6) = Inr True \<and> z = addr6)))
       \<and> (\<not> (0 \<le> IPv6Obj.ip_object addr6 + m
              \<and> IPv6Obj.ip_object addr6 + m \<le> 340282366920938463463374607431768211455) \<longrightarrow>
            IPv6Obj_add addr6 m = Inl AssertionError)
       \<and> (\<not> (0 \<le> IPv6Obj.ip_object addr6 - m
              \<and> IPv6Obj.ip_object addr6 - m \<le> 340282366920938463463374607431768211455) \<longrightarrow>
            IPv6Obj_sub addr6 m = Inl AssertionError)"
proof -
  have 1: "\<exists>y. IPv4Obj_add addr n = Inr y
                \<and> IPv4Obj_prefixlen y = IPv4Obj_prefixlen addr
                \<and> IPv4Obj_as_decimal y = Inr (IPv4Obj.ip_object addr + n)
                \<and> (\<exists>z. IPv4Obj_sub y n = Inr z
                      \<and> IPv4Obj_prefixlen z = IPv4Obj_prefixlen addr
                      \<and> IPv4Obj_eq z (V4 addr) = Inr True \<and> z = addr)"
    if "0 \<le> IPv4Obj.ip_object addr + n" "IPv4Obj.ip_object addr + n \<le> 4294967295"
    using IPv4Obj_add_sub [OF assms(1) that] by auto
  have 2: "IPv4Obj_add addr n = Inl AssertionError"
    if "\<not> (0 \<le> IPv4Obj.ip_object addr + n \<and> IPv4Obj.ip_object addr + n \<le> 4294967295)"
    using that by (auto simp: IPv4Obj_add_def IPv4Obj_as_decimal_ok [OF assms(1)] Let_def)
  have 3: "IPv4Obj_sub addr n = Inl AssertionError"
    if "\<not> (0 \<le> IPv4Obj.ip_object addr - n \<and> IPv4Obj.ip_object addr - n \<le> 4294967295)"
    using that by (auto simp: IPv4Obj_sub_def IPv4Obj_as_decimal_ok [OF assms(1)] Let_def)
  have 4: "\<exists>y. IPv6Obj_add addr6 m = Inr y
                \<and> IPv6Obj_prefixlen y = IPv6Obj_prefixlen addr6
                \<and> IPv6Obj_as_decimal y = Inr (IPv6Obj.ip_object addr6 + m)
                \<and> (\<exists>z. IPv6Obj_sub y m = Inr z
                      \<and> IPv6Obj_prefixlen z = IPv6Obj_prefixlen addr6
                      \<and> IPv6Obj_eq z (V6 addr6) = Inr True \<and> z = addr6)"
    if "0 \<le> IPv6Obj.ip_object addr6 + m"
       "IPv6Obj.ip_object addr6 + m \<le> 340282366920938463463374607431768211455"
    using IPv6Obj_add_sub [OF assms(2) that] by auto
  have 5: "IPv6Obj_add addr6 m = Inl AssertionError"
    if "\<not> (0 \<le> IPv6Obj.ip_object addr6 + m
              \<and> IPv6Obj.ip_object addr6 + m \<le> 340282366920938463463374607431768211455)"
    using that by (auto simp: IPv6Obj_add_def IPv6Obj_as_decimal_ok [OF assms(2)] Let_def)
  have 6: "IPv6Obj_sub addr6 m = Inl AssertionError"
    if "\<not> (0 \<le> IPv6Obj.ip_object addr6 - m
              \<and> IPv6Obj.ip_object addr6 - m \<le> 340282366920938463463374607431768211455)"
    using that by (auto simp: IPv6Obj_sub_def IPv6Obj_as_decimal_ok [OF assms(2)] Let_def)
  from 1 2 3 4 5 6 show ?thesis by blast
qed

theorem add_sub_round_trip_witness:
  "IPv4Obj_ok \<lparr>IPv4Obj.ip_object = 4294967290, IPv4Obj.network_object = \<lparr>network_address = 4294901760, prefixlen = 16\<rparr>\<rparr>
 \<and> IPv6Obj_ok \<lparr>IPv6Obj.ip_object = 1, IPv6Obj.network_object = \<lparr>network_address = 0, prefixlen = 64\<rparr>\<rparr>
 \<and> (\<exists>y. IPv4Obj_add \<lparr>IPv4Obj.ip_object = 4294967290, IPv4Obj.network_object = \<lparr>network_address = 4294901760, prefixlen = 16\<rparr>\<rparr> 5 = Inr y
        \<and> IPv4Obj_prefixlen y = 16 \<and> IPv4Obj_as_decimal y = Inr 4294967295
        \<and> IPv4Obj_sub y 5 = Inr \<lparr>IPv4Obj.ip_object = 4294967290, IPv4Obj.network_object = \<lparr>network_address = 4294901760, prefixlen = 16\<rparr>\<rparr>)
 \<and> IPv4Obj_add \<lparr>IPv4Obj.ip_object = 4294967290, IPv4Obj.network_object = \<lparr>network_address = 4294901760, prefixlen = 16\<rparr>\<rparr> 6 = Inl AssertionError
 \<and> IPv4Obj_sub \<lparr>IPv4Obj.ip_object = 4294967290, IPv4Obj.network_object = \<lparr>network_address = 4294901760, prefixlen = 16\<rparr>\<rparr> 4294967291 = Inl AssertionError
 \<and> (\<exists>y. IPv6Obj_add \<lparr>IPv6Obj.ip_object = 1, IPv6Obj.network_object = \<lparr>network_address = 0, prefixlen = 64\<rparr>\<rparr> 7 = Inr y
        \<and> IPv6Obj_prefixlen y = 64 \<and> IPv6Obj_as_decimal y = Inr 8
        \<and> IPv6Obj_sub y 7 = Inr \<lparr>IPv6Obj.ip_object = 1, IPv6Obj.network_object = \<lparr>network_address = 0, prefixlen = 64\<rparr>\<rparr>)
 \<and> IPv6Obj_add \<lparr>IPv6Obj.ip_object = 1, IPv6Obj.network_object = \<lparr>network_address = 0, prefixlen = 64\<rparr>\<rparr>
        340282366920938463463374607431768211455 = Inl AssertionError
 \<and> IPv6Obj_sub \<lparr>IPv6Obj.ip_object = 1, IPv6Obj.network_object = \<lparr>network_address = 0, prefixlen = 64\<rparr>\<rparr> 2 = Inl AssertionError"
proof -
  let ?a = "\<lparr>IPv4Obj.ip_object = 4294967290, IPv4Obj.network_object = \<lparr>network_address = 4294901760, prefixlen = 16\<rparr>\<rparr>"
  let ?b = "\<lparr>IPv6Obj.ip_object = 1, IPv6Obj.network_object = \<lparr>network_address = 0, prefixlen = 64\<rparr>\<rparr>"
  have a: "IPv4Obj_ok ?a" by (simp add: IPv4Obj_ok_literal ip_int_from_prefix_def)
  have b: "IPv6Obj_ok ?b" by (simp add: IPv6Obj_ok_literal ip_int_from_prefix_def)
  have 1: "\<exists>y. IPv4Obj_add ?a 5 = Inr y \<and> IPv4Obj_prefixlen y = 16 \<and> IPv4Obj_as_decimal y = Inr 4294967295
        \<and> IPv4Obj_sub y 5 = Inr ?a"
    using add_sub_round_trip [OF a b, of 5 7] by (auto simp: IPv4Obj_prefixlen_def)
  have 2: "\<exists>y. IPv6Obj_add ?b 7 = Inr y \<and> IPv6Obj_prefixlen y = 64 \<and> IPv6Obj_as_decimal y = Inr 8
        \<and> IPv6Obj_sub y 7 = Inr ?b"
    using add_sub_round_trip [OF a b, of 5 7] by (auto simp: IPv6Obj_prefixlen_def)
  have 3: "IPv4Obj_add ?a 6 = Inl AssertionError"
    using add_sub_round_trip [OF a b, of 6 7] by simp
  have 4: "IPv4Obj_sub ?a 4294967291 = Inl AssertionError"
    using add_sub_round_trip [OF a b, of 4294967291 7] by simp
  have 5: "IPv6Obj_add ?b 340282366920938463463374607431768211455 = Inl AssertionError"
    using add_sub_round_trip [OF a b, of 5 340282366920938463463374607431768211455] by simp
  have 6: "IPv6Obj_sub ?b 2 = Inl AssertionError"
    using add_sub_round_trip [OF a b, of 5 2] by simp
  from a b 1 2 3 4 5 6 show ?thesis by blast
qed

text \<open>
  Claim C2. \<^verbatim>\<open>other in self\<close> is true whenever the prefix length of \<^verbatim>\<open>self\<close> is 0, whatever
  the operand; false when the prefix length of \<^verbatim>\<open>self\<close> is longer than that of \<^verbatim>\<open>other\<close>; and
  otherwise true iff the span of the network of \<^verbatim>\<open>self\<close> encloses that of \<^verbatim>\<open>other\<close>. The two
  integers compared are those of the networks, the host addresses masked by the prefix
  lengths, not the host addresses.
\<close>

theorem IPv4Obj_contains_rule:
  fixes self other :: IPv4Obj
  defines "ns \<equiv> network_address (IPv4Obj.network_object self)"
      and "no \<equiv> network_address (IPv4Obj.network_object other)"
  assumes "IPv4Obj_ok self" "IPv4Obj_ok other"
  shows "(IPv4Obj_prefixlen self = 0 \<longrightarrow> IPv4Obj_contains self val = Inr True)
       \<and> (IPv4Obj_prefixlen self > IPv4Obj_prefixlen other \<longrightarrow>
            IPv4Obj_contains self (V4 other) = Inr False)
       \<and> (IPv4Obj_prefixlen self \<noteq> 0 \<and> \<not> IPv4Obj_prefixlen self > IPv4Obj_prefixlen other \<longrightarrow>
            IPv4Obj_contains self (V4 other)
              = Inr (ns \<le> no \<and> ns + IPv4Obj_numhosts self - 1 \<ge> no + IPv4Obj_numhosts other - 1))
       \<and> IPv4Obj_as_decimal_network self = Inr ns \<and> IPv4Obj_as_decimal_network other = Inr no
       \<and> ns = IPv4Obj.ip_object self AND ip_int_from_prefix 4294967295 (IPv4Obj_prefixlen self)
       \<and> no = IPv4Obj.ip_object other AND ip_int_from_prefix 4294967295 (IPv4Obj_prefixlen other)"
proof -
  note gs = getattr_V4 [OF assms(3)] and go = getattr_V4 [OF assms(4)]
  have 1: "IPv4Obj_contains self val = Inr True" if "IPv4Obj_prefixlen self = 0"
    using that by (simp add: IPv4Obj_contains_def obj_contains_def IPv4Obj_prefixlen_def)
  have 2: "IPv4Obj_contains self (V4 other) = Inr False"
    if "IPv4Obj_prefixlen self > IPv4Obj_prefixlen other"
    using that IPv4Obj_network_range [OF assms(4)]
    by (simp add: IPv4Obj_contains_def obj_contains_def IPv4Obj_prefixlen_def)
  have 3: "IPv4Obj_contains self (V4 other)
      = Inr (ns \<le> no \<and> ns + IPv4Obj_numhosts self - 1 \<ge> no + IPv4Obj_numhosts other - 1)"
    if "IPv4Obj_prefixlen self \<noteq> 0" "\<not> IPv4Obj_prefixlen self > IPv4Obj_prefixlen other"
    using that gs go
    by (simp add: IPv4Obj_contains_def obj_contains_def IPv4Obj_prefixlen_def ns_def no_def)
  have 4: "IPv4Obj_as_decimal_network self = Inr ns" "IPv4Obj_as_decimal_network other = Inr no"
    using gs go by (simp_all add: ns_def no_def)
  have 5: "ns = IPv4Obj.ip_object self AND ip_int_from_prefix 4294967295 (IPv4Obj_prefixlen self)"
    "no = IPv4Obj.ip_object other AND ip_int_from_prefix 4294967295 (IPv4Obj_prefixlen other)"
    using IPv4Obj_ok_network [OF assms(3)] IPv4Obj_ok_network [OF assms(4)]
    by (simp_all add: ns_def no_def IPv4Obj_prefixlen_def)
  from 1 2 3 4 5 show ?thesis by blast
qed

text \<open>\<^verbatim>\<open>0.0.0.0/0\<close> contains \<^verbatim>\<open>4.0.1.1/32\<close>; \<^verbatim>\<open>4.0.0.0/16\<close> contains it and \<^verbatim>\<open>4.0.0.0/24\<close>
  does not; \<^verbatim>\<open>4.0.200.7/16\<close>, whose host bits are above it, contains it too.\<close>

theorem IPv4Obj_contains_rule_witness:
  "IPv4Obj_ok \<lparr>IPv4Obj.ip_object = 0, IPv4Obj.network_object = \<lparr>network_address = 0, prefixlen = 0\<rparr>\<rparr>
 \<and> IPv4Obj_ok \<lparr>IPv4Obj.ip_object = 67108864, IPv4Obj.network_object = \<lparr>network_address = 67108864, prefixlen = 16\<rparr>\<rparr>
 \<and> IPv4Obj_ok \<lparr>IPv4Obj.ip_object = 67108864, IPv4Obj.network_object = \<lparr>network_address = 67108864, prefixlen = 24\<rparr>\<rparr>
 \<and> IPv4Obj_ok \<lparr>IPv4Obj.ip_object = 67160071, IPv4Obj.network_object = \<lparr>network_address = 67108864, prefixlen = 16\<rparr>\<rparr>
 \<and> IPv4Obj_ok \<lparr>IPv4Obj.ip_object = 67109121, IPv4Obj.network_object = \<lparr>network_address = 67109121, prefixlen = 32\<rparr>\<rparr>
 \<and> IPv4Obj_contains \<lparr>IPv4Obj.ip_object = 0, IPv4Obj.network_object = \<lparr>network_address = 0, prefixlen = 0\<rparr>\<rparr>
       (V4 \<lparr>IPv4Obj.ip_object = 67109121, IPv4Obj.network_object = \<lparr>network_address = 67109121, prefixlen = 32\<rparr>\<rparr>) = Inr True
 \<and> IPv4Obj_contains \<lparr>IPv4Obj.ip_object = 67108864, IPv4Obj.network_object = \<lparr>network_address = 67108864, prefixlen = 16\<rparr>\<rparr>
       (V4 \<lparr>IPv4Obj.ip_object = 67109121, IPv4Obj.network_object = \<lparr>network_address = 67109121, prefixlen = 32\<rparr>\<rparr>) = Inr True
 \<and> IPv4Obj_contains \<lparr>IPv4Obj.ip_object = 67108864, IPv4Obj.network_object = \<lparr>network_address = 67108864, prefixlen = 24\<rparr>\<rparr>
       (V4 \<lparr>IPv4Obj.ip_object = 67109121, IPv4Obj.network_object = \<lparr>network_address = 67109121, prefixlen = 32\<rparr>\<rparr>) = Inr False
 \<and> IPv4Obj_contains \<lparr>IPv4Obj.ip_object = 67160071, IPv4Obj.network_object = \<lparr>network_address = 67108864, prefixlen = 16\<rparr>\<rparr>
       (V4 \<lparr>IPv4Obj.ip_object = 67109121, IPv4Obj.network_object = \<lparr>network_address = 67109121, prefixlen = 32\<rparr>\<rparr>) = Inr True
 \<and> IPv4Obj_contains \<lparr>IPv4Obj.ip_object = 67109121, IPv4Obj.network_object = \<lparr>network_address = 67109121, prefixlen = 32\<rparr>\<rparr>
       (V4 \<lparr>IPv4Obj.ip_object = 67108864, IPv4Obj.network_object = \<lparr>network_address = 67108864, prefixlen = 16\<rparr>\<rparr>) = Inr False"
proof -
  let ?z = "\<lparr>IPv4Obj.ip_object = 0, IPv4Obj.network_object = \<lparr>network_address = 0, prefixlen = 0\<rparr>\<rparr>"
  let ?a = "\<lparr>IPv4Obj.ip_object = 67108864, IPv4Obj.network_object = \<lparr>network_address = 67108864, prefixlen = 16\<rparr>\<rparr>"
  let ?b = "\<lparr>IPv4Obj.ip_object = 67108864, IPv4Obj.network_object = \<lparr>network_address = 67108864, prefixlen = 24\<rparr>\<rparr>"
  let ?c = "\<lparr>IPv4Obj.ip_object = 67160071, IPv4Obj.network_object = \<lparr>network_address = 67108864, prefixlen = 16\<rparr>\<rparr>"
  let ?h = "\<lparr>IPv4Obj.ip_object = 67109121, IPv4Obj.network_object = \<lparr>network_address = 67109121, prefixlen = 32\<rparr>\<rparr>"
  have z: "IPv4Obj_ok ?z" by (simp add: IPv4Obj_ok_literal ip_int_from_prefix_def)
  have a: "IPv4Obj_ok ?a" by (simp add: IPv4Obj_ok_literal ip_int_from_prefix_def)
  have b: "IPv4Obj_ok ?b" by (simp add: IPv4Obj_ok_literal ip_int_from_prefix_def)
  have c: "IPv4Obj_ok ?c" by (simp add: IPv4Obj_ok_literal ip_int_from_prefix_def)
  have h: "IPv4Obj_ok ?h" by (simp add: IPv4Obj_ok_literal ip_int_from_prefix_def)
  have 1: "IPv4Obj_contains ?z (V4 ?h) = Inr True"
    using IPv4Obj_contains_rule [OF z h, of "V4 ?h"] by (simp add: IPv4Obj_prefixlen_def)
  have 2: "IPv4Obj_contains ?a (V4 ?h) = Inr True"
    using IPv4Obj_contains_rule [OF a h] by (simp add: IPv4Obj_prefixlen_def IPv4Obj_numhosts_def)
  have 3: "IPv4Obj_contains ?b (V4 ?h) = Inr False"
    using IPv4Obj_contains_rule [OF b h] by (simp add: IPv4Obj_prefixlen_def IPv4Obj_numhosts_def)
  have 4: "IPv4Obj_contains ?c (V4 ?h) = Inr True"
    using IPv4Obj_contains_rule [OF c h] by (simp add: IPv4Obj_prefixlen_def IPv4Obj_numhosts_def)
  have 5: "IPv4Obj_contains ?h (V4 ?a) = Inr False"
    using IPv4Obj_contains_rule [OF h a] by (simp add: IPv4Obj_prefixlen_def IPv4Obj_numhosts_def)
  from z a b c h 1 2 3 4 5 show ?thesis by blast
qed

text \<open>
  Claim C8. \<^verbatim>\<open>broadcast\<close> of an \<^verbatim>\<open>IPv6Obj\<close> raises \<^verbatim>\<open>NotImplementedError\<close>, whatever its
  address and prefix length; \<^verbatim>\<open>broadcast\<close> of an \<^verbatim>\<open>IPv4Obj\<close> returns the broadcast address of
  its network.
\<close>

theorem IPv6Obj_broadcast_unsupported:
  "IPv6Obj_broadcast x = Inl NotImplementedError
 \<and> IPv4Obj_broadcast y = Inr (broadcast_address 32 (IPv4Obj.network_object y))"
  by (simp add: IPv6Obj_broadcast_def IPv4Obj_broadcast_def)

text \<open>
  Claim C6, as the code has it. Between an \<^verbatim>\<open>IPv4Obj\<close> and an \<^verbatim>\<open>IPv6Obj\<close>, in either order,
  \<^verbatim>\<open><\<close>, \<^verbatim>\<open>>\<close>, \<^verbatim>\<open>==\<close> and \<^verbatim>\<open>in\<close> raise nothing: they return the boolean their rule gives on
  the integers of the two operands. The comparison error, \<^verbatim>\<open>ValueError\<close>, is what an operand
  without the attributes gets (an integer, a string): always from \<^verbatim>\<open><\<close>, \<^verbatim>\<open>>\<close> and \<^verbatim>\<open>==\<close>,
  and from \<^verbatim>\<open>in\<close> unless the prefix length of \<^verbatim>\<open>self\<close> is 0.
\<close>

theorem cross_family_comparison:
  fixes a :: IPv4Obj and b :: IPv6Obj
  defines "na \<equiv> network_address (IPv4Obj.network_object a)"
      and "pa \<equiv> IPv4Obj_prefixlen a" and "ha \<equiv> IPv4Obj.ip_object a"
      and "nb \<equiv> network_address (IPv6Obj.network_object b)"
      and "pb \<equiv> IPv6Obj_prefixlen b" and "hb \<equiv> IPv6Obj.ip_object b"
  assumes "IPv4Obj_ok a" "IPv6Obj_ok b"
  shows "IPv4Obj_lt a (V6 b) = Inr (na < nb \<or> (na = nb \<and> (pa < pb \<or> (pa = pb \<and> ha < hb))))
       \<and> IPv4Obj_gt a (V6 b) = Inr (na > nb \<or> (na = nb \<and> (pa > pb \<or> (pa = pb \<and> ha > hb))))
       \<and> IPv4Obj_eq a (V6 b) = Inr (ha = hb \<and> pa = pb)
       \<and> IPv4Obj_contains a (V6 b)
            = Inr (pa = 0 \<or> (pa \<le> pb \<and> na \<le> nb
                     \<and> na + IPv4Obj_numhosts a - 1 \<ge> nb + IPv6Obj_numhosts b - 1))
       \<and> IPv6Obj_lt b (V4 a) = Inr (nb < na \<or> (nb = na \<and> (pb < pa \<or> (pb = pa \<and> hb < ha))))
       \<and> IPv6Obj_gt b (V4 a) = Inr (nb > na \<or> (nb = na \<and> (pb > pa \<or> (pb = pa \<and> hb > ha))))
       \<and> IPv6Obj_eq b (V4 a) = Inr (hb = ha \<and> pb = pa)
       \<and> IPv6Obj_contains b (V4 a)
            = Inr (pb = 0 \<or> (pb \<le> pa \<and> nb \<le> na
                     \<and> nb + IPv6Obj_numhosts b - 1 \<ge> na + IPv4Obj_numhosts a - 1))
       \<and> IPv4Obj_lt a (PyInt i) = Inl ValueError \<and> IPv4Obj_lt a (PyStr s) = Inl ValueError
       \<and> IPv4Obj_gt a (PyInt i) = Inl ValueError \<and> IPv4Obj_gt a (PyStr s) = Inl ValueError
       \<and> IPv4Obj_eq a (PyInt i) = Inl ValueError \<and> IPv4Obj_eq a (PyStr s) = Inl ValueError
       \<and> IPv4Obj_contains a (PyInt i) = (if pa = 0 then Inr True else Inl ValueError)
       \<and> IPv4Obj_contains a (PyStr s) = (if pa = 0 then Inr True else Inl ValueError)
       \<and> IPv6Obj_lt b (PyInt i) = Inl ValueError \<and> IPv6Obj_lt b (PyStr s) = Inl ValueError
       \<and> IPv6Obj_gt b (PyInt i) = Inl ValueError \<and> IPv6Obj_gt b (PyStr s) = Inl ValueError
       \<and> IPv6Obj_eq b (PyInt i) = Inl ValueError \<and> IPv6Obj_eq b (PyStr s) = Inl ValueError
       \<and> IPv6Obj_contains b (PyInt i) = (if pb = 0 then Inr True else Inl ValueError)
       \<and> IPv6Obj_contains b (PyStr s) = (if pb = 0 then Inr True else Inl ValueError)"
proof -
  note ga = getattr_V4 [OF assms(7)] and gb = getattr_V6 [OF assms(8)]
  note d = na_def pa_def ha_def nb_def pb_def hb_def IPv4Obj_prefixlen_def IPv6Obj_prefixlen_def
  have 1: "IPv4Obj_lt a (V6 b) = Inr (na < nb \<or> (na = nb \<and> (pa < pb \<or> (pa = pb \<and> ha < hb))))"
    using ga gb by (auto simp: IPv4Obj_lt_def obj_lt_def d)
  have 2: "IPv4Obj_gt a (V6 b) = Inr (na > nb \<or> (na = nb \<and> (pa > pb \<or> (pa = pb \<and> ha > hb))))"
    using ga gb by (auto simp: IPv4Obj_gt_def obj_gt_def d)
  have 3: "IPv4Obj_eq a (V6 b) = Inr (ha = hb \<and> pa = pb)"
    using ga gb by (auto simp: IPv4Obj_eq_def obj_eq_def d)
  have 4: "IPv4Obj_contains a (V6 b)
            = Inr (pa = 0 \<or> (pa \<le> pb \<and> na \<le> nb
                     \<and> na + IPv4Obj_numhosts a - 1 \<ge> nb + IPv6Obj_numhosts b - 1))"
    using ga gb by (auto simp: IPv4Obj_contains_def obj_contains_def d)
  have 5: "IPv6Obj_lt b (V4 a) = Inr (nb < na \<or> (nb = na \<and> (pb < pa \<or> (pb = pa \<and> hb < ha))))"
    using ga gb by (auto simp: IPv6Obj_lt_def obj_lt_def d)
  have 6: "IPv6Obj_gt b (V4 a) = Inr (nb > na \<or> (nb = na \<and> (pb > pa \<or> (pb = pa \<and> hb > ha))))"
    using ga gb by (auto simp: IPv6Obj_gt_def obj_gt_def d)
  have 7: "IPv6Obj_eq b (V4 a) = Inr (hb = ha \<and> pb = pa)"
    using ga gb by (auto simp: IPv6Obj_eq_def obj_eq_def d)
  have 8: "IPv6Obj_contains b (V4 a)
            = Inr (pb = 0 \<or> (pb \<le> pa \<and> nb \<le> na
                     \<and> nb + IPv6Obj_numhosts b - 1 \<ge> na + IPv4Obj_numhosts a - 1))"
    using ga gb by (auto simp: IPv6Obj_contains_def obj_contains_def d)
  have 9: "IPv4Obj_lt a (PyInt i) = Inl ValueError \<and> IPv4Obj_lt a (PyStr s) = Inl ValueError
       \<and> IPv4Obj_gt a (PyInt i) = Inl ValueError \<and> IPv4Obj_gt a (PyStr s) = Inl ValueError
       \<and> IPv4Obj_eq a (PyInt i) = Inl ValueError \<and> IPv4Obj_eq a (PyStr s) = Inl ValueError"
    using ga by (simp add: IPv4Obj_lt_def obj_lt_def IPv4Obj_gt_def obj_gt_def IPv4Obj_eq_def obj_eq_def)
  have 10: "IPv4Obj_contains a (PyInt i) = (if pa = 0 then Inr True else Inl ValueError)
       \<and> IPv4Obj_contains a (PyStr s) = (if pa = 0 then Inr True else Inl ValueError)"
    by (simp add: IPv4Obj_contains_def obj_contains_def d)
  have 11: "IPv6Obj_lt b (PyInt i) = Inl ValueError \<and> IPv6Obj_lt b (PyStr s) = Inl ValueError
       \<and> IPv6Obj_gt b (PyInt i) = Inl ValueError \<and> IPv6Obj_gt b (PyStr s) = Inl ValueError
       \<and> IPv6Obj_eq b (PyInt i) = Inl ValueError \<and> IPv6Obj_eq b (PyStr s) = Inl ValueError"
    using gb by (simp add: IPv6Obj_lt_def obj_lt_def IPv6Obj_gt_def obj_gt_def IPv6Obj_eq_def obj_eq_def)
  have 12: "IPv6Obj_contains b (PyInt i) = (if pb = 0 then Inr True else Inl ValueError)
       \<and> IPv6Obj_contains b (PyStr s) = (if pb = 0 then Inr True else Inl ValueError)"
    by (simp add: IPv6Obj_contains_def obj_contains_def d)
  from 1 2 3 4 5 6 7 8 9 10 11 12 show ?thesis by blast
qed

theorem cross_family_comparison_witness:
  "IPv4Obj_ok \<lparr>IPv4Obj.ip_object = 67108864, IPv4Obj.network_object = \<lparr>network_address = 67108864, prefixlen = 16\<rparr>\<rparr>
 \<and> IPv6Obj_ok \<lparr>IPv6Obj.ip_object = 67108865, IPv6Obj.network_object = \<lparr>network_address = 67108865, prefixlen = 128\<rparr>\<rparr>
 \<and> IPv4Obj_lt \<lparr>IPv4Obj.ip_object = 67108864, IPv4Obj.network_object = \<lparr>network_address = 67108864, prefixlen = 16\<rparr>\<rparr>
      (V6 \<lparr>IPv6Obj.ip_object = 67108865, IPv6Obj.network_object = \<lparr>network_address = 67108865, prefixlen = 128\<rparr>\<rparr>) = Inr True
 \<and> IPv6Obj_gt \<lparr>IPv6Obj.ip_object = 67108865, IPv6Obj.network_object = \<lparr>network_address = 67108865, prefixlen = 128\<rparr>\<rparr>
      (V4 \<lparr>IPv4Obj.ip_object = 67108864, IPv4Obj.network_object = \<lparr>network_address = 67108864, prefixlen = 16\<rparr>\<rparr>) = Inr True
 \<and> IPv4Obj_lt \<lparr>IPv4Obj.ip_object = 67108864, IPv4Obj.network_object = \<lparr>network_address = 67108864, prefixlen = 16\<rparr>\<rparr>
      (PyStr ''4.0.0.0/16'') = Inl ValueError"
proof -
  let ?a = "\<lparr>IPv4Obj.ip_object = 67108864, IPv4Obj.network_object = \<lparr>network_address = 67108864, prefixlen = 16\<rparr>\<rparr>"
  let ?b = "\<lparr>IPv6Obj.ip_object = 67108865, IPv6Obj.network_object = \<lparr>network_address = 67108865, prefixlen = 128\<rparr>\<rparr>"
  have a: "IPv4Obj_ok ?a" by (simp add: IPv4Obj_ok_literal ip_int_from_prefix_def)
  have b: "IPv6Obj_ok ?b" by (simp add: IPv6Obj_ok_literal ip_int_from_prefix_def)
  show ?thesis
    using cross_family_comparison [OF a b, of 0 "''4.0.0.0/16''"] a b by simp
qed

text \<open>The IPv4 network \<^verbatim>\<open>4.0.0.0/16\<close> against the IPv6 address \<^verbatim>\<open>::400:1/128\<close>.\<close>

theorem cross_family_counterexample:
  "IPv4Obj_lt \<lparr>IPv4Obj.ip_object = 67108864, IPv4Obj.network_object = \<lparr>network_address = 67108864, prefixlen = 16\<rparr>\<rparr>
      (V6 \<lparr>IPv6Obj.ip_object = 67108865, IPv6Obj.network_object = \<lparr>network_address = 67108865, prefixlen = 128\<rparr>\<rparr>) = Inr True
 \<and> IPv4Obj_gt \<lparr>IPv4Obj.ip_object = 67108864, IPv4Obj.network_object = \<lparr>network_address = 67108864, prefixlen = 16\<rparr>\<rparr>
      (V6 \<lparr>IPv6Obj.ip_object = 67108865, IPv6Obj.network_object = \<lparr>network_address = 67108865, prefixlen = 128\<rparr>\<rparr>) = Inr False
 \<and> IPv4Obj_eq \<lparr>IPv4Obj.ip_object = 67108864, IPv4Obj.network_object = \<lparr>network_address = 67108864, prefixlen = 16\<rparr>\<rparr>
      (V6 \<lparr>IPv6Obj.ip_object = 67108865, IPv6Obj.network_object = \<lparr>network_address = 67108865, prefixlen = 128\<rparr>\<rparr>) = Inr False
 \<and> IPv4Obj_contains \<lparr>IPv4Obj.ip_object = 67108864, IPv4Obj.network_object = \<lparr>network_address = 67108864, prefixlen = 16\<rparr>\<rparr>
      (V6 \<lparr>IPv6Obj.ip_object = 67108865, IPv6Obj.network_object = \<lparr>network_address = 67108865, prefixlen = 128\<rparr>\<rparr>) = Inr True
 \<and> IPv6Obj_lt \<lparr>IPv6Obj.ip_object = 67108865, IPv6Obj.network_object = \<lparr>network_address = 67108865, prefixlen = 128\<rparr>\<rparr>
      (V4 \<lparr>IPv4Obj.ip_object = 67108864, IPv4Obj.network_object = \<lparr>network_address = 67108864, prefixlen = 16\<rparr>\<rparr>) = Inr False
 \<and> IPv6Obj_contains \<lparr>IPv6Obj.ip_object = 67108865, IPv6Obj.network_object = \<lparr>network_address = 67108865, prefixlen = 128\<rparr>\<rparr>
      (V4 \<lparr>IPv4Obj.ip_object = 67108864, IPv4Obj.network_object = \<lparr>network_address = 67108864, prefixlen = 16\<rparr>\<rparr>) = Inr False"
proof -
  let ?a = "\<lparr>IPv4Obj.ip_object = 67108864, IPv4Obj.network_object = \<lparr>network_address = 67108864, prefixlen = 16\<rparr>\<rparr>"
  let ?b = "\<lparr>IPv6Obj.ip_object = 67108865, IPv6Obj.network_object = \<lparr>network_address = 67108865, prefixlen = 128\<rparr>\<rparr>"
  have a: "IPv4Obj_ok ?a" by (simp add: IPv4Obj_ok_literal ip_int_from_prefix_def)
  have b: "IPv6Obj_ok ?b" by (simp add: IPv6Obj_ok_literal ip_int_from_prefix_def)
  note ga = getattr_V4 [OF a] and gb = getattr_V6 [OF b]
  show ?thesis
    using ga gb
    by (simp add: IPv4Obj_lt_def IPv4Obj_gt_def IPv4Obj_eq_def IPv4Obj_contains_def
        IPv6Obj_lt_def IPv6Obj_contains_def obj_lt_def obj_gt_def obj_eq_def obj_contains_def
        IPv4Obj_prefixlen_def IPv6Obj_prefixlen_def IPv4Obj_numhosts_def IPv6Obj_numhosts_def)
qed

section \<open>The range expander: removal, item assignment, expansion\<close>

lemma index_of_Inl: "index_of xs v = Inl e \<Longrightarrow> v \<notin> set xs"
  by (induction xs) (auto simp: bindE_def split: if_splits sum.splits)

lemma index_of_Inr:
  "index_of xs v = Inr i \<Longrightarrow> i < length xs \<and> xs ! i = v \<and> v \<notin> set (take i xs)"
proof (induction xs arbitrary: i)
  case Nil
  then show ?case by simp
next
  case (Cons x xs)
  show ?case
  proof (cases "x = v")
    case True
    with Cons.prems show ?thesis by simp
  next
    case False
    with Cons.prems obtain j where j: "index_of xs v = Inr j" "i = Suc j"
      by (auto simp: bindE_def split: sum.splits)
    from Cons.IH [OF j(1)] False j(2) show ?thesis by simp
  qed
qed

lemma filter_del_at:
  assumes "i < length xs" "xs ! i = v"
  shows "filter (\<lambda>x. x \<noteq> v) (del_at i xs) = filter (\<lambda>x. x \<noteq> v) xs"
proof -
  have "xs = take i xs @ xs ! i # drop (Suc i) xs"
    using assms(1) by (rule id_take_nth_drop)
  then have "filter (\<lambda>x. x \<noteq> v) xs
      = filter (\<lambda>x. x \<noteq> v) (take i xs) @ filter (\<lambda>x. x \<noteq> v) (xs ! i # drop (Suc i) xs)"
    by (metis filter_append)
  then show ?thesis using assms(2) by (simp add: del_at_def)
qed

lemma pop_all_filter: "pop_all v l = filter (\<lambda>x. x \<noteq> v) l"
proof (induction v l rule: pop_all.induct)
  case (1 v l)
  show ?case
  proof (cases "index_of l v")
    case (Inl e)
    then have "v \<notin> set l" by (rule index_of_Inl)
    then have "filter (\<lambda>x. x \<noteq> v) l = l" by (auto simp: filter_id_conv)
    with Inl show ?thesis by (subst pop_all.simps) simp
  next
    case (Inr i)
    from index_of_Inr [OF Inr] have i: "i < length l" "l ! i = v" by simp_all
    from 1 [OF Inr] have "pop_all v (del_at i l) = filter (\<lambda>x. x \<noteq> v) (del_at i l)" .
    with Inr i show ?thesis by (subst pop_all.simps) (simp add: filter_del_at)
  qed
qed

lemma py_int_error: "py_int s = Inl e \<Longrightarrow> e = ValueError"
  by (auto simp: py_int_def Let_def split: if_splits)

lemma apply_result_type_error: "apply_result_type rt ii = Inl e \<Longrightarrow> e = ValueError"
  by (cases rt; cases ii) (auto simp: bindE_def dest: py_int_error split: sum.splits)

lemma remove_item_filter:
  "remove_item rt l ii = Inr (filter (\<lambda>x. apply_result_type rt ii \<noteq> Inr x) l)"
proof (cases "apply_result_type rt ii")
  case (Inl e)
  then have "e = ValueError" by (rule apply_result_type_error)
  with Inl show ?thesis by (simp add: remove_item_def)
next
  case (Inr v)
  have "(\<lambda>x. v \<noteq> x) = (\<lambda>x. x \<noteq> v)" by auto
  with Inr show ?thesis by (simp add: remove_item_def pop_all_filter)
qed

lemma remove_items_filter:
  "remove_items rt l iis = Inr (filter (\<lambda>x. \<forall>ii\<in>set iis. apply_result_type rt ii \<noteq> Inr x) l)"
proof (induction iis arbitrary: l)
  case Nil
  then show ?case by simp
next
  case (Cons ii iis)
  show ?case by (simp add: remove_item_filter Cons conj_commute)
qed

lemmas string_eval = isdigit_def isspace_def isalpha_def int_space_def ord_def strip_def strip_with_def
  py_int_def py_str_def str_digits.simps digit_chr_def digit_val_def digits_value_def Let_def

lemmas regex_eval = re_search_def RGX_CISCO_RANGE_def CISCO_RANGE_ATOM_def Plus_def Chr_def

lemmas range_eval = CiscoRange_init_def parse_range_text_def CiscoRange_range_def parse_dash_range_def
  atom_bounds_def py_range_def combine_def upto.simps

lemma init7: "CiscoRange_init first_seen ''Eth2/7'' RT_str
    = Inr \<lparr>r_text = ''Eth2/7'', result_type = RT_str, line_prefix = ''Eth'', slot_prefix = ''2/'',
           range_text = ''7'', r_list = [S ''Eth2/7'']\<rparr>"
  by (simp add: range_eval regex_eval string_eval)

lemma init13: "CiscoRange_init first_seen ''1-3,5,9-11,13'' RT_str
    = Inr \<lparr>r_text = ''1-3,5,9-11,13'', result_type = RT_str, line_prefix = [], slot_prefix = [],
           range_text = ''1-3,5,9-11,13'',
           r_list = [S ''1'', S ''2'', S ''3'', S ''5'', S ''9'', S ''10'', S ''11'', S ''13'']\<rparr>"
  by (simp add: range_eval regex_eval string_eval)

lemma is_list_set_first_seen: "is_list_set first_seen"
proof -
  have "distinct (first_seen xs) \<and> set (first_seen xs) = set xs" for xs
    by (induction xs) auto
  then show ?thesis by (simp add: is_list_set_def)
qed

lemma is_list_set_ascending: "is_list_set ascending"
  by (simp add: is_list_set_def ascending_def)

lemma mapE_total: "(\<And>x. x \<in> set xs \<Longrightarrow> f x = Inr (g x)) \<Longrightarrow> mapE f xs = Inr (map g xs)"
  by (induction xs) simp_all

lemma mapE_Inr:
  "mapE f xs = Inr ys \<Longrightarrow> length ys = length xs \<and> (\<forall>i<length xs. f (xs ! i) = Inr (ys ! i))"
proof (induction xs arbitrary: ys)
  case Nil
  then show ?case by simp
next
  case (Cons x xs)
  from Cons.prems obtain y ys' where y: "f x = Inr y" "mapE f xs = Inr ys'" "ys = y # ys'"
    by (auto simp: bindE_def split: sum.splits)
  from Cons.IH [OF y(2)] y(1,3) show ?case by (auto simp: nth_Cons split: nat.splits)
qed


lemma mapE_Inl:
  assumes "y \<in> set ys" "f y = Inl e" "\<And>y e. f y = Inl e \<Longrightarrow> e = c"
  shows "mapE f ys = Inl c"
  using assms(1,2)
proof (induction ys)
  case Nil
  then show ?case by simp
next
  case (Cons a ys)
  show ?case
  proof (cases "f a")
    case (Inl e')
    with assms(3) show ?thesis by auto
  next
    case (Inr b)
    with Cons have "y \<in> set ys" by auto
    from Cons.IH [OF this Cons.prems(2)] Inr show ?thesis by simp
  qed
qed

lemma inj_str_key: "list_all is_str l \<Longrightarrow> inj_on str_key (set l)"
proof (rule inj_onI)
  fix x y
  assume l: "list_all is_str l" and x: "x \<in> set l" and y: "y \<in> set l" and k: "str_key x = str_key y"
  from l x obtain s where s: "x = S s" by (cases x) (auto simp: list_all_iff)
  from l y obtain t where t: "y = S t" by (cases y) (auto simp: list_all_iff)
  have "inj (of_char :: char \<Rightarrow> nat)" by (rule injI) simp
  then have "inj (map (of_char :: char \<Rightarrow> nat))" by simp
  with k s t show "x = y" by (simp add: ord_def [abs_def] inj_def)
qed

lemma inj_int_key: "list_all is_int l \<Longrightarrow> inj_on int_key (set l)"
proof (rule inj_onI)
  fix x y
  assume l: "list_all is_int l" and x: "x \<in> set l" and y: "y \<in> set l" and k: "int_key x = int_key y"
  from l x obtain s where s: "x = I s" by (cases x) (auto simp: list_all_iff)
  from l y obtain t where t: "y = I t" by (cases y) (auto simp: list_all_iff)
  with k s t show "x = y" by simp
qed

lemma py_sorted_mset:
  assumes "mset a = mset b"
  shows "py_sorted a = py_sorted b"
proof -
  from assms have s: "set a = set b" by (rule mset_eq_setD)
  have 1: "sort_key f a = sort_key f b" if "inj_on f (set a)" for f :: "pyitem \<Rightarrow> 'k::linorder"
    by (rule sort_key_inj_key_eq) (simp_all add: assms that)
  show ?thesis
    using s 1 [of str_key] 1 [of int_key] inj_str_key [of a] inj_int_key [of a]
    by (auto simp: py_sorted_def list_all_iff)
qed

lemma sorted_set_order:
  assumes "distinct ys" "set ys = set xs"
  shows "bindE (mapE (apply_result_type rt) ys) py_sorted
       = bindE (mapE (apply_result_type rt) (remdups xs)) py_sorted"
proof -
  let ?f = "apply_result_type rt"
  let ?zs = "remdups xs"
  from assms have m: "mset ys = mset ?zs"
    by (simp add: set_eq_iff_mset_eq_distinct [symmetric])
  show ?thesis
  proof (cases "\<exists>y\<in>set ys. \<exists>e. ?f y = Inl e")
    case True
    then obtain y e where y: "y \<in> set ys" "?f y = Inl e" by auto
    from y(1) assms(2) have y': "y \<in> set ?zs" by simp
    have "mapE ?f ys = Inl ValueError"
      using y by (rule mapE_Inl) (rule apply_result_type_error)
    moreover have "mapE ?f ?zs = Inl ValueError"
      using y' y(2) by (rule mapE_Inl) (rule apply_result_type_error)
    ultimately show ?thesis by simp
  next
    case False
    define g where "g y = (case ?f y of Inr v \<Rightarrow> v | Inl e \<Rightarrow> y)" for y
    from False have t: "?f y = Inr (g y)" if "y \<in> set ys" for y
      using that by (cases "?f y") (auto simp: g_def)
    then have 1: "mapE ?f ys = Inr (map g ys)" by (rule mapE_total)
    from t assms(2) have "?f y = Inr (g y)" if "y \<in> set ?zs" for y using that by simp
    then have 2: "mapE ?f ?zs = Inr (map g ?zs)" by (rule mapE_total)
    from m have "mset (map g ys) = mset (map g ?zs)" by simp
    then have "py_sorted (map g ys) = py_sorted (map g ?zs)" by (rule py_sorted_mset)
    with 1 2 show ?thesis by simp
  qed
qed



















text \<open>
  Claim C9. \<^verbatim>\<open>remove(arg)\<close> expands \<^verbatim>\<open>arg\<close> as a range of its own and takes every occurrence
  of every expanded item out of the list. An expanded item that is not in the list changes
  nothing and raises nothing: once \<^verbatim>\<open>arg\<close> has been expanded, \<^verbatim>\<open>remove\<close> always returns, and
  when no expanded item occurs in the list it returns the object unchanged.
\<close>

theorem remove_silent_no_op:
  assumes "CiscoRange_init list_set arg RT_str = Inr remove_obj"
  shows "CiscoRange_remove list_set self arg
           = Inr (self\<lparr>r_list :=
                  filter (\<lambda>x. \<forall>ii\<in>set (r_list remove_obj).
                              apply_result_type (result_type self) ii \<noteq> Inr x) (r_list self)\<rparr>)
       \<and> ((\<forall>ii\<in>set (r_list remove_obj). \<forall>x\<in>set (r_list self).
               apply_result_type (result_type self) ii \<noteq> Inr x)
            \<longrightarrow> CiscoRange_remove list_set self arg = Inr self)"
proof -
  have 1: "CiscoRange_remove list_set self arg
           = Inr (self\<lparr>r_list :=
                  filter (\<lambda>x. \<forall>ii\<in>set (r_list remove_obj).
                              apply_result_type (result_type self) ii \<noteq> Inr x) (r_list self)\<rparr>)"
    by (simp add: CiscoRange_remove_def assms remove_items_filter)
  have "filter (\<lambda>x. \<forall>ii\<in>set (r_list remove_obj).
                  apply_result_type (result_type self) ii \<noteq> Inr x) (r_list self) = r_list self"
    if "\<forall>ii\<in>set (r_list remove_obj). \<forall>x\<in>set (r_list self).
               apply_result_type (result_type self) ii \<noteq> Inr x"
    using that by (auto simp: filter_id_conv)
  with 1 show ?thesis by simp
qed

theorem remove_silent_no_op_witness:
  "CiscoRange_init first_seen ''Eth2/7'' RT_str
     = Inr \<lparr>r_text = ''Eth2/7'', result_type = RT_str, line_prefix = ''Eth'', slot_prefix = ''2/'',
            range_text = ''7'', r_list = [S ''Eth2/7'']\<rparr>
 \<and> CiscoRange_remove first_seen
      \<lparr>r_text = ''Eth2/1-2,5'', result_type = RT_str, line_prefix = ''Eth'', slot_prefix = ''2/'',
        range_text = ''1-2,5'', r_list = [S ''Eth2/1'', S ''Eth2/2'', S ''Eth2/5'']\<rparr> ''Eth2/7''
     = Inr \<lparr>r_text = ''Eth2/1-2,5'', result_type = RT_str, line_prefix = ''Eth'', slot_prefix = ''2/'',
        range_text = ''1-2,5'', r_list = [S ''Eth2/1'', S ''Eth2/2'', S ''Eth2/5'']\<rparr>
 \<and> CiscoRange_init first_seen ''Eth2/2,7'' RT_str
     = Inr \<lparr>r_text = ''Eth2/2,7'', result_type = RT_str, line_prefix = ''Eth'', slot_prefix = ''2/'',
            range_text = ''2,7'', r_list = [S ''Eth2/2'', S ''Eth2/7'']\<rparr>
 \<and> CiscoRange_remove first_seen
      \<lparr>r_text = [], result_type = RT_str, line_prefix = ''Eth'', slot_prefix = ''2/'',
        range_text = [], r_list = [S ''Eth2/2'', S ''Eth2/1'', S ''Eth2/2'', S ''Eth2/5'']\<rparr> ''Eth2/2,7''
     = Inr \<lparr>r_text = [], result_type = RT_str, line_prefix = ''Eth'', slot_prefix = ''2/'',
        range_text = [], r_list = [S ''Eth2/1'', S ''Eth2/5'']\<rparr>"
proof -
  have a: "CiscoRange_init first_seen ''Eth2/7'' RT_str
     = Inr \<lparr>r_text = ''Eth2/7'', result_type = RT_str, line_prefix = ''Eth'', slot_prefix = ''2/'',
            range_text = ''7'', r_list = [S ''Eth2/7'']\<rparr>"
    by (simp add: range_eval regex_eval string_eval)
  have b: "CiscoRange_init first_seen ''Eth2/2,7'' RT_str
     = Inr \<lparr>r_text = ''Eth2/2,7'', result_type = RT_str, line_prefix = ''Eth'', slot_prefix = ''2/'',
            range_text = ''2,7'', r_list = [S ''Eth2/2'', S ''Eth2/7'']\<rparr>"
    by (simp add: range_eval regex_eval string_eval)
  show ?thesis
    using remove_silent_no_op [OF a, of "\<lparr>r_text = ''Eth2/1-2,5'', result_type = RT_str,
        line_prefix = ''Eth'', slot_prefix = ''2/'', range_text = ''1-2,5'',
        r_list = [S ''Eth2/1'', S ''Eth2/2'', S ''Eth2/5'']\<rparr>"]
      remove_silent_no_op [OF b, of "\<lparr>r_text = [], result_type = RT_str, line_prefix = ''Eth'',
        slot_prefix = ''2/'', range_text = [],
        r_list = [S ''Eth2/2'', S ''Eth2/1'', S ''Eth2/2'', S ''Eth2/5'']\<rparr>"]
      a b
    by simp
qed

lemma atom_bounds_Inr: "atom_bounds a = Inr (b, e) \<Longrightarrow> 0 \<le> b \<and> b < e"
  by (auto simp: atom_bounds_def Let_def bindE_def split: sum.splits if_splits)

lemma set_py_range: "set (py_range b e) = {b..<e}"
  by (auto simp: py_range_def)

lemma collect_atoms_all:
  "collect_atoms atoms = Inr retval \<Longrightarrow> a \<in> set atoms \<Longrightarrow> \<exists>b e. atom_bounds a = Inr (b, e)"
proof (induction atoms arbitrary: retval)
  case Nil
  then show ?case by simp
next
  case (Cons x atoms)
  from Cons.prems(1) obtain b e rest where x: "atom_bounds x = Inr (b, e)"
      and rest: "collect_atoms atoms = Inr rest"
    by (auto simp: bindE_def split: sum.splits)
  show ?case
  proof (cases "a = x")
    case True
    with x show ?thesis by blast
  next
    case False
    with Cons.prems(2) have "a \<in> set atoms" by simp
    with Cons.IH [OF rest] show ?thesis by blast
  qed
qed

lemma collect_atoms_mem:
  "collect_atoms atoms = Inr retval \<Longrightarrow>
   n \<in> set retval \<longleftrightarrow> (\<exists>a\<in>set atoms. \<exists>b e. atom_bounds a = Inr (b, e) \<and> b \<le> n \<and> n < e)"
proof (induction atoms arbitrary: retval)
  case Nil
  then show ?case by simp
next
  case (Cons x atoms)
  from Cons.prems obtain b e rest where x: "atom_bounds x = Inr (b, e)"
      and rest: "collect_atoms atoms = Inr rest" and retval: "retval = py_range b e @ rest"
    by (auto simp: bindE_def split: sum.splits)
  have "n \<in> set retval \<longleftrightarrow> (b \<le> n \<and> n < e) \<or> n \<in> set rest"
    by (auto simp: retval set_py_range)
  also have "\<dots> \<longleftrightarrow> (b \<le> n \<and> n < e)
      \<or> (\<exists>a\<in>set atoms. \<exists>b e. atom_bounds a = Inr (b, e) \<and> b \<le> n \<and> n < e)"
    by (simp only: Cons.IH [OF rest])
  also have "\<dots> \<longleftrightarrow> (\<exists>a\<in>set (x # atoms). \<exists>b e. atom_bounds a = Inr (b, e) \<and> b \<le> n \<and> n < e)"
    using x by auto
  finally show ?case .
qed

lemma CiscoRange_init_Inr:
  assumes "CiscoRange_init list_set txt rt = Inr r" "txt \<noteq> []"
  shows "\<exists>retval. parse_range_text txt = Inr (line_prefix r, slot_prefix r, range_text r)
       \<and> result_type r = rt \<and> r_text r = txt
       \<and> collect_atoms (split_on CHR '','' (range_text r)) = Inr retval
       \<and> mapE (\<lambda>n. apply_result_type rt (S (line_prefix r @ slot_prefix r @ py_str n)))
            (list_set retval) = Inr (r_list r)"
proof -
  from assms obtain lp sp rtxt l where p: "parse_range_text txt = Inr (lp, sp, rtxt)"
    and l: "CiscoRange_range list_set \<lparr>r_text = txt, result_type = rt, line_prefix = lp,
              slot_prefix = sp, range_text = rtxt, r_list = []\<rparr> = Inr l"
    and r: "r = \<lparr>r_text = txt, result_type = rt, line_prefix = lp,
              slot_prefix = sp, range_text = rtxt, r_list = l\<rparr>"
    by (auto simp: CiscoRange_init_def bindE_def Let_def split: sum.splits prod.splits)
  from l obtain retval where c: "collect_atoms (split_on CHR '','' rtxt) = Inr retval"
    and m: "mapE (\<lambda>n. apply_result_type rt (S (lp @ sp @ py_str n))) (list_set retval) = Inr l"
    by (auto simp: CiscoRange_range_def parse_dash_range_def combine_def bindE_def split: sum.splits)
  from p c m show ?thesis by (auto simp: r)
qed

text \<open>
  Claim C3, as the code has it. For a text that \<^verbatim>\<open>CiscoRange\<close> accepts, the integers expanded
  are those of the inclusive interval of every comma-separated atom and no others, each
  once; the items are those integers, in the order in which the set that removed the
  duplicates iterates, each rendered as \<^verbatim>\<open>line_prefix + slot_prefix + str(value)\<close> and passed
  through \<^verbatim>\<open>result_type\<close>. The constructor does not sort them.
\<close>

theorem expansion_items:
  assumes "is_list_set list_set" "txt \<noteq> []" "CiscoRange_init list_set txt rt = Inr r"
  shows "\<exists>retval ns.
       collect_atoms (split_on CHR '','' (range_text r)) = Inr retval
     \<and> ns = list_set retval
     \<and> (\<forall>a\<in>set (split_on CHR '','' (range_text r)).
           \<exists>b e. atom_bounds a = Inr (b, e) \<and> 0 \<le> b \<and> b < e \<and> {b..e - 1} \<subseteq> set ns)
     \<and> (\<forall>n\<in>set ns. \<exists>a\<in>set (split_on CHR '','' (range_text r)).
           \<exists>b e. atom_bounds a = Inr (b, e) \<and> b \<le> n \<and> n \<le> e - 1)
     \<and> distinct ns
     \<and> length (r_list r) = length ns
     \<and> (\<forall>i<length ns.
           apply_result_type rt (S (line_prefix r @ slot_prefix r @ py_str (ns ! i))) = Inr (r_list r ! i))
     \<and> (rt = RT_str \<longrightarrow> r_list r = map (\<lambda>n. S (line_prefix r @ slot_prefix r @ py_str n)) ns)"
proof -
  from CiscoRange_init_Inr [OF assms(3,2)] obtain retval
    where c: "collect_atoms (split_on CHR '','' (range_text r)) = Inr retval"
      and m: "mapE (\<lambda>n. apply_result_type rt (S (line_prefix r @ slot_prefix r @ py_str n)))
            (list_set retval) = Inr (r_list r)"
    by blast
  define ns where "ns = list_set retval"
  let ?atoms = "split_on CHR '','' (range_text r)"
  from assms(1) have d: "distinct ns" and s: "set ns = set retval"
    by (simp_all add: is_list_set_def ns_def)
  have 1: "\<exists>b e. atom_bounds a = Inr (b, e) \<and> 0 \<le> b \<and> b < e \<and> {b..e - 1} \<subseteq> set ns"
    if "a \<in> set ?atoms" for a
  proof -
    from collect_atoms_all [OF c that] obtain b e where a: "atom_bounds a = Inr (b, e)" by blast
    have "n \<in> set ns" if "n \<in> {b..e - 1}" for n
    proof -
      from that have "b \<le> n \<and> n < e" by simp
      with a \<open>a \<in> set ?atoms\<close> have "n \<in> set retval"
        unfolding collect_atoms_mem [OF c] by blast
      then show ?thesis by (simp add: s)
    qed
    then have "{b..e - 1} \<subseteq> set ns" by blast
    with a atom_bounds_Inr [OF a] show ?thesis by blast
  qed
  have 2: "\<exists>a\<in>set ?atoms. \<exists>b e. atom_bounds a = Inr (b, e) \<and> b \<le> n \<and> n \<le> e - 1"
    if "n \<in> set ns" for n
  proof -
    from that have "n \<in> set retval" by (simp add: s)
    then obtain a b e where "a \<in> set ?atoms" "atom_bounds a = Inr (b, e)" "b \<le> n" "n < e"
      unfolding collect_atoms_mem [OF c] by blast
    moreover from this have "n \<le> e - 1" by simp
    ultimately show ?thesis by blast
  qed
  from mapE_Inr [OF m] have 3: "length (r_list r) = length ns"
    and 4: "\<forall>i<length ns.
           apply_result_type rt (S (line_prefix r @ slot_prefix r @ py_str (ns ! i))) = Inr (r_list r ! i)"
    by (simp_all add: ns_def)
  have 5: "r_list r = map (\<lambda>n. S (line_prefix r @ slot_prefix r @ py_str n)) ns" if "rt = RT_str"
    using 3 4 that by (intro nth_equalityI) simp_all
  have 6: "ns = list_set retval" by (simp add: ns_def)
  show ?thesis
    apply (rule exI [of _ retval])
    apply (rule exI [of _ ns])
    using c 6 d 1 2 3 4 5 apply (intro conjI ballI impI)
           apply assumption+
    done
qed

theorem expansion_items_witness:
  "is_list_set first_seen \<and> ''Eth2/1-3,5,9-10'' \<noteq> []
 \<and> CiscoRange_init first_seen ''Eth2/1-3,5,9-10'' RT_str
     = Inr \<lparr>r_text = ''Eth2/1-3,5,9-10'', result_type = RT_str, line_prefix = ''Eth'',
            slot_prefix = ''2/'', range_text = ''1-3,5,9-10'',
            r_list = [S ''Eth2/1'', S ''Eth2/2'', S ''Eth2/3'', S ''Eth2/5'', S ''Eth2/9'', S ''Eth2/10'']\<rparr>
 \<and> (\<exists>ns. distinct ns \<and> length ns = 6
        \<and> [S ''Eth2/1'', S ''Eth2/2'', S ''Eth2/3'', S ''Eth2/5'', S ''Eth2/9'', S ''Eth2/10'']
            = map (\<lambda>n. S (''Eth'' @ ''2/'' @ py_str n)) ns)"
proof -
  let ?r = "\<lparr>r_text = ''Eth2/1-3,5,9-10'', result_type = RT_str, line_prefix = ''Eth'',
            slot_prefix = ''2/'', range_text = ''1-3,5,9-10'',
            r_list = [S ''Eth2/1'', S ''Eth2/2'', S ''Eth2/3'', S ''Eth2/5'', S ''Eth2/9'', S ''Eth2/10'']\<rparr>"
  have 1: "''Eth2/1-3,5,9-10'' \<noteq> []" by simp
  have 2: "CiscoRange_init first_seen ''Eth2/1-3,5,9-10'' RT_str = Inr ?r"
    by (simp add: range_eval regex_eval string_eval)
  from expansion_items [OF is_list_set_first_seen 1 2]
  obtain ns where "distinct ns" "length (r_list ?r) = length ns"
    "r_list ?r = map (\<lambda>n. S (line_prefix ?r @ slot_prefix ?r @ py_str n)) ns"
    by blast
  then have "\<exists>ns. distinct ns \<and> length ns = 6
        \<and> [S ''Eth2/1'', S ''Eth2/2'', S ''Eth2/3'', S ''Eth2/5'', S ''Eth2/9'', S ''Eth2/10'']
            = map (\<lambda>n. S (''Eth'' @ ''2/'' @ py_str n)) ns"
    by (intro exI [of _ ns]) simp
  with is_list_set_first_seen 1 2 show ?thesis by (intro conjI)
qed

text \<open>
  The range \<^verbatim>\<open>"9,1"\<close>: the items are \<^verbatim>\<open>"9"\<close>, \<^verbatim>\<open>"1"\<close>, in that order, when the set iterates
  in insertion order. (CPython's hash table gives the same list: 9 and 1 fall into the same
  slot of a table of eight, and 1, inserted second, is displaced behind 9.)
\<close>

theorem expansion_unsorted_counterexample:
  "is_list_set first_seen
 \<and> CiscoRange_init first_seen ''9,1'' RT_str
     = Inr \<lparr>r_text = ''9,1'', result_type = RT_str, line_prefix = [], slot_prefix = [],
            range_text = ''9,1'', r_list = [S ''9'', S ''1'']\<rparr>
 \<and> mapE (item_number []) [S ''9'', S ''1''] = Inr [9, 1]
 \<and> \<not> sorted [9, 1 :: int]"
proof -
  have 1: "CiscoRange_init first_seen ''9,1'' RT_str
     = Inr \<lparr>r_text = ''9,1'', result_type = RT_str, line_prefix = [], slot_prefix = [],
            range_text = ''9,1'', r_list = [S ''9'', S ''1'']\<rparr>"
    by (simp add: range_eval regex_eval string_eval)
  have 2: "mapE (item_number []) [S ''9'', S ''1''] = Inr [9, 1]"
    by (simp add: item_number_def item_text_def re_sub_group1_def regex_eval string_eval)
  have 3: "\<not> sorted [9, 1 :: int]" by simp
  from is_list_set_first_seen 1 2 3 show ?thesis by (intro conjI)
qed

section \<open>The range expander: expansion and compression\<close>

lemma mapE_map_total:
  "(\<And>x. x \<in> set xs \<Longrightarrow> f (g x) = Inr x) \<Longrightarrow> mapE f (map g xs) = Inr xs"
  by (induction xs) simp_all

lemma sort_list_set:
  assumes "is_list_set list_set" "sorted ys" "distinct ys" "set xs = set ys"
  shows "sort (list_set xs) = ys"
proof -
  from assms(1) have "distinct (list_set xs)" "set (list_set xs) = set xs"
    by (simp_all add: is_list_set_def)
  with assms(4) have "distinct (sort (list_set xs))" "set (sort (list_set xs)) = set ys"
    by simp_all
  with assms(2,3) show ?thesis
    by (intro sorted_distinct_set_unique) simp_all
qed

lemmas compress_eval = build_range_list_def range_step_def render_def token_str_def same_type_def

text \<open>The canonical range of the class documentation.\<close>

lemma canonical_numbers:
  "n \<in> set [1, 2, 3, 5, 9, 10, 11, 13] \<Longrightarrow> item_number [] (S (py_str n)) = Inr n"
proof -
  assume "n \<in> set [1, 2, 3, 5, 9, 10, 11, 13]"
  then have "n = 1 \<or> n = 2 \<or> n = 3 \<or> n = 5 \<or> n = 9 \<or> n = 10 \<or> n = 11 \<or> n = 13"
    by simp
  then show ?thesis
    by (elim disjE)
      (simp_all add: item_number_def item_text_def re_sub_group1_def regex_eval string_eval)
qed

lemma canonical_render:
  "render [] (build_range_list [1, 2, 3, 5, 9, 10, 11, 13]) = ''1-3,5,9-11,13''"
  by (simp add: compress_eval string_eval)

lemma canonical_compressed_str:
  assumes "is_list_set list_set" "line_prefix r = []" "slot_prefix r = []"
    and "r_list r = map (\<lambda>n. S (py_str n)) ns" "set ns = set [1, 2, 3, 5, 9, 10, 11, 13]"
  shows "compressed_str list_set r = Inr ''1-3,5,9-11,13''"
proof -
  have m: "mapE (item_number []) (r_list r) = Inr ns"
    unfolding assms(4) using assms(5) canonical_numbers by (intro mapE_map_total) blast
  have ne: "ns \<noteq> []" using assms(5) by auto
  have "sort (list_set ns) = [1, 2, 3, 5, 9, 10, 11, 13]"
    using assms(1) by (rule sort_list_set) (simp_all add: assms(5))
  then show ?thesis
    using m ne by (simp add: compressed_str_def assms(2,3) canonical_render)
qed

lemma canonical_init:
  "CiscoRange_init list_set ''1-3,5,9-11,13'' RT_str
     = Inr \<lparr>r_text = ''1-3,5,9-11,13'', result_type = RT_str, line_prefix = [], slot_prefix = [],
            range_text = ''1-3,5,9-11,13'',
            r_list = map (\<lambda>n. S (py_str n)) (list_set [1, 2, 3, 5, 9, 10, 11, 13])\<rparr>"
proof -
  have p: "parse_range_text ''1-3,5,9-11,13'' = Inr ([], [], ''1-3,5,9-11,13'')"
    by (simp add: parse_range_text_def regex_eval string_eval)
  have c: "collect_atoms (split_on CHR '','' ''1-3,5,9-11,13'') = Inr [1, 2, 3, 5, 9, 10, 11, 13]"
    by (simp add: atom_bounds_def py_range_def upto.simps string_eval)
  have m: "mapE (\<lambda>ii. Inr (S (py_str ii))) xs = Inr (map (\<lambda>n. S (py_str n)) xs)" for xs
    by (rule mapE_total) simp
  have d: "parse_dash_range list_set ''1-3,5,9-11,13'' = Inr (list_set [1, 2, 3, 5, 9, 10, 11, 13])"
    by (simp only: parse_dash_range_def c bindE_Inr)
  show ?thesis
    by (simp add: CiscoRange_init_def p CiscoRange_range_def d combine_def m)
qed

text \<open>
  Claim C4. Whatever the iteration order of the sets, \<^verbatim>\<open>CiscoRange("1-3,5,9-11,13")\<close> holds the
  items of the indices 1, 2, 3, 5, 9, 10, 11, 13, each once (in ascending order they are the
  list \<open>[1,2,3,5,9,10,11,13]\<close>), and \<^verbatim>\<open>compressed_str\<close> of it, as of any object without a
  prefix that holds that index set, is \<^verbatim>\<open>"1-3,5,9-11,13"\<close>.
\<close>

theorem expand_compress_round_trip:
  assumes "is_list_set list_set"
  shows "\<exists>r ns. CiscoRange_init list_set ''1-3,5,9-11,13'' RT_str = Inr r
       \<and> r_list r = map (\<lambda>n. S (py_str n)) ns
       \<and> distinct ns \<and> set ns = {1, 2, 3, 5, 9, 10, 11, 13}
       \<and> sort ns = [1, 2, 3, 5, 9, 10, 11, 13]
       \<and> mapE (item_number (line_prefix r @ slot_prefix r)) (r_list r) = Inr ns
       \<and> compressed_str list_set r = Inr ''1-3,5,9-11,13''
       \<and> (\<forall>ms. set ms = {1, 2, 3, 5, 9, 10, 11, 13} \<longrightarrow>
             compressed_str list_set (r\<lparr>r_list := map (\<lambda>n. S (py_str n)) ms\<rparr>) = Inr ''1-3,5,9-11,13'')"
proof -
  let ?L = "[1, 2, 3, 5, 9, 10, 11, 13] :: int list"
  let ?r = "\<lparr>r_text = ''1-3,5,9-11,13'', result_type = RT_str, line_prefix = [], slot_prefix = [],
            range_text = ''1-3,5,9-11,13'', r_list = map (\<lambda>n. S (py_str n)) (list_set ?L)\<rparr>"
  from assms have d: "distinct (list_set ?L)" and s: "set (list_set ?L) = set ?L"
    by (simp_all add: is_list_set_def)
  have 1: "CiscoRange_init list_set ''1-3,5,9-11,13'' RT_str = Inr ?r" by (rule canonical_init)
  have 2: "r_list ?r = map (\<lambda>n. S (py_str n)) (list_set ?L)" by simp
  have 3: "set (list_set ?L) = {1, 2, 3, 5, 9, 10, 11, 13}" by (simp add: s)
  have 4: "sort (list_set ?L) = ?L"
    by (intro sorted_distinct_set_unique) (simp_all add: d s)
  have 5: "mapE (item_number (line_prefix ?r @ slot_prefix ?r)) (r_list ?r) = Inr (list_set ?L)"
    using s canonical_numbers by (simp, intro mapE_map_total) blast
  have 6: "compressed_str list_set ?r = Inr ''1-3,5,9-11,13''"
    using assms by (rule canonical_compressed_str [where ns = "list_set ?L"]) (simp_all add: s)
  have 7: "compressed_str list_set (?r\<lparr>r_list := map (\<lambda>n. S (py_str n)) ms\<rparr>) = Inr ''1-3,5,9-11,13''"
    if "set ms = {1, 2, 3, 5, 9, 10, 11, 13}" for ms
    using assms by (rule canonical_compressed_str [where ns = ms]) (simp_all add: that)
  show ?thesis
    apply (rule exI [of _ ?r])
    apply (rule exI [of _ "list_set ?L"])
    using 1 2 d 3 4 5 6 7 apply (intro conjI allI impI)
           apply assumption+
    done
qed


theorem expand_compress_round_trip_witness:
  "is_list_set ascending
 \<and> CiscoRange_init ascending ''1-3,5,9-11,13'' RT_str
     = Inr \<lparr>r_text = ''1-3,5,9-11,13'', result_type = RT_str, line_prefix = [], slot_prefix = [],
            range_text = ''1-3,5,9-11,13'',
            r_list = [S ''1'', S ''2'', S ''3'', S ''5'', S ''9'', S ''10'', S ''11'', S ''13'']\<rparr>
 \<and> compressed_str ascending
      \<lparr>r_text = ''1-3,5,9-11,13'', result_type = RT_str, line_prefix = [], slot_prefix = [],
        range_text = ''1-3,5,9-11,13'',
        r_list = [S ''1'', S ''2'', S ''3'', S ''5'', S ''9'', S ''10'', S ''11'', S ''13'']\<rparr>
     = Inr ''1-3,5,9-11,13''"
proof -
  let ?r = "\<lparr>r_text = ''1-3,5,9-11,13'', result_type = RT_str, line_prefix = [], slot_prefix = [],
        range_text = ''1-3,5,9-11,13'',
        r_list = [S ''1'', S ''2'', S ''3'', S ''5'', S ''9'', S ''10'', S ''11'', S ''13'']\<rparr>"
  have 1: "CiscoRange_init ascending ''1-3,5,9-11,13'' RT_str = Inr ?r"
    by (simp add: range_eval regex_eval string_eval ascending_def)
  from expand_compress_round_trip [OF is_list_set_ascending] 1
  have 2: "compressed_str ascending ?r = Inr ''1-3,5,9-11,13''"
    by auto
  from is_list_set_ascending 1 2 show ?thesis by (intro conjI)
qed

section \<open>The range expander: the compression and the runs\<close>

subsection \<open>The loop of \<^verbatim>\<open>compressed_str\<close>, one integer at a time\<close>

lemma range_step_last: "Suc ii = length xs \<Longrightarrow> range_step xs rl ii = rl"
  by (simp add: range_step_def)

lemma range_step_append:
  "Suc ii < length xs \<Longrightarrow> range_step (xs @ zs) rl ii = range_step xs rl ii"
  by (cases ii) (simp_all add: range_step_def nth_append)

lemma foldl_range_step_append:
  "k < length xs \<Longrightarrow>
   foldl (range_step (xs @ zs)) rl [0..<k] = foldl (range_step xs) rl [0..<k]"
  by (induction k) (simp_all add: range_step_append)

lemma loop_snoc:
  assumes "xs \<noteq> []"
  shows "foldl (range_step (xs @ [z])) [Num ((xs @ [z]) ! 0)] [0..<length (xs @ [z])]
       = range_step (xs @ [z]) (foldl (range_step xs) [Num (xs ! 0)] [0..<length xs]) (length xs - 1)"
proof -
  from assms obtain m where m: "length xs = Suc m" by (cases xs) auto
  have i: "(xs @ [z]) ! 0 = xs ! 0" using assms by (simp add: nth_append)
  have "foldl (range_step (xs @ [z])) [Num (xs ! 0)] [0..<Suc (Suc m)]
      = range_step (xs @ [z]) (foldl (range_step (xs @ [z])) [Num (xs ! 0)] [0..<m]) m"
    by (simp add: range_step_last m)
  also have "foldl (range_step (xs @ [z])) [Num (xs ! 0)] [0..<m]
      = foldl (range_step xs) [Num (xs ! 0)] [0..<m]"
    by (rule foldl_range_step_append) (simp add: m)
  also have "\<dots> = foldl (range_step xs) [Num (xs ! 0)] [0..<Suc m]"
    by (simp add: range_step_last m)
  finally show ?thesis by (simp add: i m)
qed

subsection \<open>The runs of a list\<close>

lemma runs_snoc: "runs (xs @ [z]) = add_to_runs (runs xs) z"
  by (simp add: runs_def)

lemma runs_Nil: "runs [] = []"
  by (simp add: runs_def)

lemma runs_last:
  "xs \<noteq> [] \<Longrightarrow> runs xs \<noteq> [] \<and> last (runs xs) \<noteq> [] \<and> last (last (runs xs)) = last xs"
proof (induction xs rule: rev_induct)
  case Nil
  then show ?case by simp
next
  case (snoc z xs)
  show ?case by (simp add: runs_snoc add_to_runs_def)
qed

lemma runs_nonempty: "r \<in> set (runs xs) \<Longrightarrow> r \<noteq> []"
proof (induction xs arbitrary: r rule: rev_induct)
  case Nil
  then show ?case by (simp add: runs_Nil)
next
  case (snoc z xs)
  show ?case
  proof (cases "runs xs \<noteq> [] \<and> z = last (last (runs xs)) + 1")
    case True
    with snoc.prems have "r = last (runs xs) @ [z] \<or> r \<in> set (butlast (runs xs))"
      by (auto simp: runs_snoc add_to_runs_def)
    then show ?thesis using snoc.IH by (auto dest: in_set_butlastD)
  next
    case False
    with snoc.prems have "r = [z] \<or> r \<in> set (runs xs)"
      by (auto simp: runs_snoc add_to_runs_def)
    then show ?thesis using snoc.IH by auto
  qed
qed

lemma concat_runs: "concat (runs xs) = xs"
proof (induction xs rule: rev_induct)
  case Nil
  then show ?case by (simp add: runs_Nil)
next
  case (snoc z xs)
  show ?case
  proof (cases "runs xs \<noteq> [] \<and> z = last (last (runs xs)) + 1")
    case True
    then have "runs xs = butlast (runs xs) @ [last (runs xs)]" by simp
    then have "concat (runs xs) = concat (butlast (runs xs)) @ last (runs xs)"
      by (metis concat.simps(1) concat.simps(2) concat_append append_Nil2)
    with True snoc show ?thesis by (simp add: runs_snoc add_to_runs_def)
  next
    case False
    with snoc show ?thesis by (auto simp: runs_snoc add_to_runs_def)
  qed
qed

lemma build_range_list_loop:
  assumes "xs \<noteq> []"
  shows "build_range_list xs
     = (if 1 < length xs
        then foldl (range_step xs) [Num (xs ! 0)] [0..<length xs] @ [Num (last xs)]
        else foldl (range_step xs) [Num (xs ! 0)] [0..<length xs])"
  using assms by (simp add: build_range_list_def Let_def last_conv_nth)

lemma run_tokens_short: "length r < 3 \<Longrightarrow> run_tokens r = map Num r"
  by (simp add: run_tokens_def)

lemma run_tokens_long: "3 \<le> length r \<Longrightarrow> run_tokens r = [Num (hd r), Dash, Num (last r)]"
  by (simp add: run_tokens_def)

lemma runs_last_two:
  "2 \<le> length (last (runs (ys @ [w, y]))) \<longleftrightarrow> y = w + 1"
proof -
  have "runs (ys @ [w, y]) = add_to_runs (runs (ys @ [w])) y"
    using runs_snoc [of "ys @ [w]" y] by simp
  moreover have "runs (ys @ [w]) \<noteq> [] \<and> last (runs (ys @ [w])) \<noteq> []
      \<and> last (last (runs (ys @ [w]))) = w"
    using runs_last [of "ys @ [w]"] by simp
  ultimately show ?thesis
    by (cases "last (runs (ys @ [w]))") (auto simp: add_to_runs_def)
qed

lemma build_range_list_runs:
  "xs \<noteq> [] \<Longrightarrow> build_range_list xs = concat (map run_tokens (runs xs))"
proof (induction xs rule: rev_induct)
  case Nil
  then show ?case by simp
next
  case (snoc z xs)
  show ?case
  proof (cases "xs = []")
    case True
    then show ?thesis
      by (simp add: build_range_list_def range_step_def runs_def add_to_runs_def run_tokens_def)
  next
    case False
    note ne = False
    let ?L = "foldl (range_step xs) [Num (xs ! 0)] [0..<length xs]"
    have IH: "build_range_list xs = concat (map run_tokens (runs xs))"
      using snoc.IH ne by simp
    have b: "build_range_list (xs @ [z])
        = range_step (xs @ [z]) ?L (length xs - 1) @ [Num z]"
      using ne loop_snoc [OF ne, of z] by (simp add: build_range_list_loop)
    from runs_last [OF ne] have rl: "runs xs \<noteq> []" "last (runs xs) \<noteq> []"
      "last (last (runs xs)) = last xs" by simp_all
    define R' where "R' = butlast (runs xs)"
    define \<rho> where "\<rho> = last (runs xs)"
    have R: "runs xs = R' @ [\<rho>]" using rl(1) by (simp add: R'_def \<rho>_def)
    have \<rho>: "\<rho> \<noteq> []" "last \<rho> = last xs" using rl by (simp_all add: \<rho>_def)
    show ?thesis
    proof (cases "length xs = 1")
      case True
      then obtain y where xs: "xs = [y]" by (cases xs) auto
      show ?thesis
        by (simp add: xs build_range_list_def range_step_def runs_def add_to_runs_def
            run_tokens_def)
    next
      case False
      from ne have "length xs \<noteq> 0" by simp
      with False have l2: "2 \<le> length xs" by arith
      then have "butlast xs \<noteq> []" by (cases xs rule: rev_cases) auto
      then have "butlast xs = butlast (butlast xs) @ [last (butlast xs)]" by simp
      moreover have "xs = butlast xs @ [last xs]" using ne by simp
      ultimately have "xs = butlast (butlast xs) @ [last (butlast xs), last xs]"
        by (metis append_Cons append_Nil append_assoc)
      then obtain ys w y where xs: "xs = ys @ [w, y]" by blast
      have ly: "last xs = y" by (simp add: xs)
      have bx: "build_range_list xs = ?L @ [Num y]"
        using l2 ne by (simp add: build_range_list_loop ly)
      have L: "?L @ [Num y] = concat (map run_tokens R') @ run_tokens \<rho>"
        using IH bx by (simp add: R)
      have st: "range_step (xs @ [z]) ?L (length xs - 1)
          = (if y - w = 1 \<and> z - y = 1
             then if last ?L \<noteq> Dash then ?L @ [Dash] else ?L
             else ?L @ [Num y])"
        unfolding range_step_def by (simp add: xs nth_append)
      have two: "2 \<le> length \<rho> \<longleftrightarrow> y = w + 1"
        using runs_last_two [of ys w y] by (simp add: \<rho>_def xs)
      have sp: "runs (xs @ [z]) = (if z = y + 1 then R' @ [\<rho> @ [z]] else R' @ [\<rho>, [z]])"
        using \<rho> by (simp add: runs_snoc add_to_runs_def R ly)
      show ?thesis
      proof (cases "z = y + 1")
        case nz: False
        then have "range_step (xs @ [z]) ?L (length xs - 1) = ?L @ [Num y]"
          using st by simp
        moreover have "runs (xs @ [z]) = R' @ [\<rho>, [z]]" using sp nz by simp
        then have "concat (map run_tokens (runs (xs @ [z])))
            = concat (map run_tokens R') @ run_tokens \<rho> @ [Num z]"
          by (simp add: run_tokens_def)
        ultimately show ?thesis using L by (simp add: b)
      next
        case z: True
        have spz: "runs (xs @ [z]) = R' @ [\<rho> @ [z]]" using sp z by simp
        show ?thesis
        proof (cases "y = w + 1")
          case nw: False
          from \<rho>(1) have "length \<rho> \<noteq> 0" by simp
          with two nw have "length \<rho> = Suc 0" by arith
          then obtain a where "\<rho> = [a]" by (auto simp: length_Suc_conv)
          with \<rho>(2) ly have r1: "\<rho> = [y]" by simp
          from nw have "range_step (xs @ [z]) ?L (length xs - 1) = ?L @ [Num y]"
            using st by simp
          moreover have "concat (map run_tokens (runs (xs @ [z])))
              = concat (map run_tokens R') @ [Num y, Num z]"
            by (simp add: spz r1 run_tokens_def)
          moreover have "?L = concat (map run_tokens R')"
            using L by (simp add: r1 run_tokens_def)
          ultimately show ?thesis by (simp add: b)
        next
          case w: True
          with two have g2: "2 \<le> length \<rho>" by simp
          show ?thesis
          proof (cases "length \<rho> = 2")
            case True
            then obtain a c where "\<rho> = [a, c]"
              by (auto simp: length_Suc_conv numeral_2_eq_2)
            with \<rho>(2) ly have r2: "\<rho> = [a, y]" by simp
            have Lp: "?L = concat (map run_tokens R') @ [Num a]"
              using L by (simp add: r2 run_tokens_def)
            then have "last ?L \<noteq> Dash" by simp
            with w z have "range_step (xs @ [z]) ?L (length xs - 1) = ?L @ [Dash]"
              using st by simp
            moreover have "concat (map run_tokens (runs (xs @ [z])))
                = concat (map run_tokens R') @ [Num a, Dash, Num z]"
              by (simp add: spz r2 run_tokens_def)
            ultimately show ?thesis using Lp by (simp add: b)
          next
            case False
            with g2 have g3: "3 \<le> length \<rho>" by arith
            have Lp: "?L = concat (map run_tokens R') @ [Num (hd \<rho>), Dash]"
              using L \<rho>(2) ly by (simp add: run_tokens_long [OF g3])
            then have "last ?L = Dash" by simp
            with w z have "range_step (xs @ [z]) ?L (length xs - 1) = ?L"
              using st by simp
            moreover have "concat (map run_tokens (runs (xs @ [z])))
                = concat (map run_tokens R') @ [Num (hd \<rho>), Dash, Num z]"
              using g3 \<rho>(1) by (simp add: spz run_tokens_def)
            ultimately show ?thesis using Lp by (simp add: b)
          qed
        qed
      qed
    qed
  qed
qed

subsection \<open>The text of the entries\<close>

lemma join_with_Cons: "join_with sep (x # xs) = x @ concat (map (\<lambda>y. sep @ y) xs)"
  by (induction sep xs arbitrary: x rule: join_with.induct) simp_all

lemma render_from_nums:
  "r \<noteq> [] \<Longrightarrow>
   render_from (Num p) (map Num r @ rest)
     = concat (map (\<lambda>n. '','' @ py_str n) r) @ render_from (Num (last r)) rest"
proof (induction r arbitrary: p)
  case Nil
  then show ?case by simp
next
  case (Cons a r)
  show ?case
  proof (cases "r = []")
    case True
    then show ?thesis by (simp add: same_type_def token_str_def)
  next
    case False
    with Cons.IH [OF False, of a] show ?thesis by (simp add: same_type_def token_str_def)
  qed
qed

lemma render_from_run:
  assumes "r \<noteq> []"
  shows "render_from (Num p) (run_tokens r @ rest)
     = '','' @ run_text r @ render_from (Num (last r)) rest"
proof (cases "3 \<le> length r")
  case True
  then show ?thesis
    by (simp add: run_tokens_def run_text_def same_type_def token_str_def)
next
  case False
  obtain a r' where r: "r = a # r'" using assms by (cases r) auto
  have "concat (map (\<lambda>n. '','' @ py_str n) r) = '','' @ join_with '','' (map py_str r)"
    by (simp add: r join_with_Cons comp_def)
  with False render_from_nums [OF assms, of p rest] show ?thesis
    by (simp add: run_tokens_def run_text_def)
qed

lemma render_from_runs:
  "(\<And>r. r \<in> set rs \<Longrightarrow> r \<noteq> []) \<Longrightarrow>
   render_from (Num p) (concat (map run_tokens rs)) = concat (map (\<lambda>r. '','' @ run_text r) rs)"
proof (induction rs arbitrary: p)
  case Nil
  then show ?case by simp
next
  case (Cons r rs)
  have r: "r \<noteq> []" using Cons.prems by simp
  have "render_from (Num (last r)) (concat (map run_tokens rs))
      = concat (map (\<lambda>r. '','' @ run_text r) rs)"
    using Cons.prems by (intro Cons.IH) simp
  with render_from_run [OF r, of p "concat (map run_tokens rs)"] show ?case by simp
qed

lemma render_first_run:
  assumes "r \<noteq> []"
  shows "render prefix_str (run_tokens r @ rest)
     = prefix_str @ run_text r @ render_from (Num (last r)) rest"
proof (cases "3 \<le> length r")
  case True
  then show ?thesis
    by (simp add: render_def run_tokens_def run_text_def same_type_def token_str_def)
next
  case False
  obtain a r' where r: "r = a # r'" using assms by (cases r) auto
  show ?thesis
  proof (cases "r' = []")
    case True
    with False show ?thesis
      by (simp add: r render_def run_tokens_def run_text_def token_str_def)
  next
    case ne: False
    have "concat (map (\<lambda>n. '','' @ py_str n) r') = concat (map ((@) '','') (map py_str r'))"
      by (simp add: comp_def)
    with False render_from_nums [OF ne, of a rest] ne show ?thesis
      by (simp add: r render_def run_tokens_def run_text_def token_str_def join_with_Cons comp_def)
  qed
qed

lemma render_runs:
  assumes "xs \<noteq> []"
  shows "render prefix_str (concat (map run_tokens (runs xs))) = compress_spec prefix_str xs"
proof -
  from runs_last [OF assms] obtain r rs where rs: "runs xs = r # rs" by (cases "runs xs") auto
  have ne: "\<And>q. q \<in> set (r # rs) \<Longrightarrow> q \<noteq> []"
    using runs_nonempty [of _ xs] by (simp add: rs)
  then have r: "r \<noteq> []" by simp
  have "render prefix_str (run_tokens r @ concat (map run_tokens rs))
      = prefix_str @ run_text r @ render_from (Num (last r)) (concat (map run_tokens rs))"
    using r by (rule render_first_run)
  also have "render_from (Num (last r)) (concat (map run_tokens rs))
      = concat (map (\<lambda>r. '','' @ run_text r) rs)"
    using ne by (intro render_from_runs) simp
  finally show ?thesis
    by (simp add: compress_spec_def rs join_with_Cons comp_def)
qed

lemma compressed_str_spec:
  assumes "is_list_set list_set"
    and "mapE (item_number (line_prefix self @ slot_prefix self)) (r_list self) = Inr input"
    and "input \<noteq> []"
  shows "compressed_str list_set self
       = Inr (compress_spec (line_prefix self @ slot_prefix self) (sort (list_set input)))"
proof -
  from assms(1,3) have "set (list_set input) \<noteq> {}" by (simp add: is_list_set_def)
  then have ne: "sort (list_set input) \<noteq> []" by (metis set_empty set_sort)
  show ?thesis
    using assms(2,3)
    by (simp add: compressed_str_def Let_def build_range_list_runs [OF ne] render_runs [OF ne])
qed

lemma consecutive_snoc:
  assumes "consecutive r" "r \<noteq> []" "z = last r + 1"
  shows "consecutive (r @ [z])"
  unfolding consecutive_def
proof (intro allI impI)
  fix i assume i: "Suc i < length (r @ [z])"
  show "(r @ [z]) ! Suc i = (r @ [z]) ! i + 1"
  proof (cases "Suc i < length r")
    case True
    with assms(1) show ?thesis by (simp add: consecutive_def nth_append)
  next
    case False
    with i have l: "length r = Suc i" by simp
    then have "(r @ [z]) ! Suc i = z" "(r @ [z]) ! i = last r"
      using assms(2) by (simp_all add: nth_append last_conv_nth l)
    with assms(3) show ?thesis by simp
  qed
qed

lemma runs_consecutive: "r \<in> set (runs xs) \<Longrightarrow> consecutive r"
proof (induction xs arbitrary: r rule: rev_induct)
  case Nil
  then show ?case by (simp add: runs_Nil)
next
  case (snoc z xs)
  show ?case
  proof (cases "runs xs \<noteq> [] \<and> z = last (last (runs xs)) + 1")
    case True
    with snoc.prems have "r = last (runs xs) @ [z] \<or> r \<in> set (butlast (runs xs))"
      by (auto simp: runs_snoc add_to_runs_def)
    then show ?thesis
    proof
      assume r: "r = last (runs xs) @ [z]"
      from True have "last (runs xs) \<in> set (runs xs)" by simp
      then have "consecutive (last (runs xs))" "last (runs xs) \<noteq> []"
        using snoc.IH runs_nonempty by blast+
      with True show ?thesis unfolding r by (intro consecutive_snoc) simp_all
    next
      assume "r \<in> set (butlast (runs xs))"
      then show ?thesis using snoc.IH by (blast dest: in_set_butlastD)
    qed
  next
    case False
    with snoc.prems have "r = [z] \<or> r \<in> set (runs xs)"
      by (auto simp: runs_snoc add_to_runs_def)
    then show ?thesis using snoc.IH by (auto simp: consecutive_def)
  qed
qed

lemma separated_snoc:
  "separated (rs @ [r]) \<longleftrightarrow> separated rs \<and> (rs = [] \<or> hd r \<noteq> last (last rs) + 1)"
  by (induction rs rule: separated.induct) auto

lemma separated_butlast: "separated rs \<Longrightarrow> separated (butlast rs)"
  by (induction rs rule: separated.induct) (auto split: if_splits)

lemma runs_separated: "separated (runs xs)"
proof (induction xs rule: rev_induct)
  case Nil
  then show ?case by (simp add: runs_Nil)
next
  case (snoc z xs)
  show ?case
  proof (cases "runs xs \<noteq> [] \<and> z = last (last (runs xs)) + 1")
    case True
    then have R: "runs xs = butlast (runs xs) @ [last (runs xs)]" by simp
    have ne: "last (runs xs) \<noteq> []" using True runs_nonempty [of "last (runs xs)" xs] by simp
    from snoc have "separated (butlast (runs xs) @ [last (runs xs)])" using R by simp
    then have "separated (butlast (runs xs) @ [last (runs xs) @ [z]])"
      using ne by (simp add: separated_snoc)
    with True show ?thesis by (simp add: runs_snoc add_to_runs_def)
  next
    case False
    with snoc show ?thesis by (auto simp: runs_snoc add_to_runs_def separated_snoc)
  qed
qed

text \<open>
  Claim C7. \<^verbatim>\<open>compressed_str\<close> is the prefix followed by the maximal runs of consecutive
  integers of the sorted index set, joined by commas: a run of three or more as
  \<^verbatim>\<open>first-last\<close>, a run of one or two as its values. So a maximal run of exactly two, such as
  5, 6, is rendered \<^verbatim>\<open>"5,6"\<close>, and a dash stands only for a maximal run of three or more.
\<close>

theorem compressed_str_runs:
  assumes "is_list_set list_set"
    and "mapE (item_number (line_prefix self @ slot_prefix self)) (r_list self) = Inr input"
    and "input \<noteq> []"
  shows "compressed_str list_set self
           = Inr (line_prefix self @ slot_prefix self
                  @ join_with '','' (map run_text (runs (sort (list_set input)))))
       \<and> sorted (sort (list_set input)) \<and> distinct (sort (list_set input))
       \<and> set (sort (list_set input)) = set input
       \<and> concat (runs (sort (list_set input))) = sort (list_set input)
       \<and> separated (runs (sort (list_set input)))
       \<and> (\<forall>r\<in>set (runs (sort (list_set input))).
             r \<noteq> [] \<and> consecutive r
           \<and> (length r < 3 \<longrightarrow> run_text r = join_with '','' (map py_str r))
           \<and> (3 \<le> length r \<longrightarrow> run_text r = py_str (hd r) @ ''-'' @ py_str (last r)))
       \<and> (\<forall>a b. [a, b] \<in> set (runs (sort (list_set input))) \<longrightarrow>
             run_text [a, b] = py_str a @ '','' @ py_str b)"
proof -
  let ?ys = "sort (list_set input)"
  have 1: "compressed_str list_set self
      = Inr (line_prefix self @ slot_prefix self @ join_with '','' (map run_text (runs ?ys)))"
    using compressed_str_spec [OF assms] by (simp add: compress_spec_def)
  from assms(1) have 2: "sorted ?ys" "distinct ?ys" "set ?ys = set input"
    by (simp_all add: is_list_set_def)
  have 3: "concat (runs ?ys) = ?ys" by (rule concat_runs)
  have 4: "separated (runs ?ys)" by (rule runs_separated)
  have 5: "r \<noteq> [] \<and> consecutive r
           \<and> (length r < 3 \<longrightarrow> run_text r = join_with '','' (map py_str r))
           \<and> (3 \<le> length r \<longrightarrow> run_text r = py_str (hd r) @ ''-'' @ py_str (last r))"
    if "r \<in> set (runs ?ys)" for r
    using that runs_nonempty [of r ?ys] runs_consecutive [of r ?ys] by (simp add: run_text_def)
  have 6: "run_text [a, b] = py_str a @ '','' @ py_str b" for a b
    by (simp add: run_text_def)
  show ?thesis
    using 1 2 3 4 5 6 by (intro conjI ballI allI impI) blast+
qed

text \<open>The index sets \<open>{5, 6}\<close>, \<open>{1, 5, 6, 9}\<close> and \<open>{5, 6, 7}\<close>.\<close>

theorem compressed_str_runs_witness:
  "is_list_set ascending
 \<and> mapE (item_number (''Eth'' @ ''2/'')) [S ''Eth2/5'', S ''Eth2/6''] = Inr [5, 6]
 \<and> compressed_str ascending
      \<lparr>r_text = ''Eth2/5,6'', result_type = RT_str, line_prefix = ''Eth'', slot_prefix = ''2/'',
        range_text = ''5,6'', r_list = [S ''Eth2/5'', S ''Eth2/6'']\<rparr> = Inr ''Eth2/5,6''
 \<and> mapE (item_number ([] @ [])) [S ''1'', S ''5'', S ''6'', S ''9''] = Inr [1, 5, 6, 9]
 \<and> compressed_str ascending
      \<lparr>r_text = ''1,5,6,9'', result_type = RT_str, line_prefix = [], slot_prefix = [],
        range_text = ''1,5,6,9'', r_list = [S ''1'', S ''5'', S ''6'', S ''9'']\<rparr> = Inr ''1,5,6,9''
 \<and> mapE (item_number ([] @ [])) [S ''5'', S ''6'', S ''7''] = Inr [5, 6, 7]
 \<and> compressed_str ascending
      \<lparr>r_text = ''5-7'', result_type = RT_str, line_prefix = [], slot_prefix = [],
        range_text = ''5-7'', r_list = [S ''5'', S ''6'', S ''7'']\<rparr> = Inr ''5-7''"
proof -
  note ev = item_number_def item_text_def re_sub_group1_def regex_eval string_eval
  note sp = ascending_def runs_def add_to_runs_def run_text_def string_eval
  have a: "mapE (item_number (''Eth'' @ ''2/'')) [S ''Eth2/5'', S ''Eth2/6''] = Inr [5, 6]"
    by (simp add: ev)
  have b: "mapE (item_number ([] @ [])) [S ''1'', S ''5'', S ''6'', S ''9''] = Inr [1, 5, 6, 9]"
    by (simp add: ev)
  have c: "mapE (item_number ([] @ [])) [S ''5'', S ''6'', S ''7''] = Inr [5, 6, 7]"
    by (simp add: ev)
  have 1: "compressed_str ascending
      \<lparr>r_text = ''Eth2/5,6'', result_type = RT_str, line_prefix = ''Eth'', slot_prefix = ''2/'',
        range_text = ''5,6'', r_list = [S ''Eth2/5'', S ''Eth2/6'']\<rparr> = Inr ''Eth2/5,6''"
    using compressed_str_runs [of ascending "\<lparr>r_text = ''Eth2/5,6'', result_type = RT_str,
        line_prefix = ''Eth'', slot_prefix = ''2/'', range_text = ''5,6'',
        r_list = [S ''Eth2/5'', S ''Eth2/6'']\<rparr>" "[5, 6]"] is_list_set_ascending a
    by (simp add: sp)
  have 2: "compressed_str ascending
      \<lparr>r_text = ''1,5,6,9'', result_type = RT_str, line_prefix = [], slot_prefix = [],
        range_text = ''1,5,6,9'', r_list = [S ''1'', S ''5'', S ''6'', S ''9'']\<rparr> = Inr ''1,5,6,9''"
    using compressed_str_runs [of ascending "\<lparr>r_text = ''1,5,6,9'', result_type = RT_str,
        line_prefix = [], slot_prefix = [], range_text = ''1,5,6,9'',
        r_list = [S ''1'', S ''5'', S ''6'', S ''9'']\<rparr>" "[1, 5, 6, 9]"] is_list_set_ascending b
    by (simp add: sp)
  have 3: "compressed_str ascending
      \<lparr>r_text = ''5-7'', result_type = RT_str, line_prefix = [], slot_prefix = [],
        range_text = ''5-7'', r_list = [S ''5'', S ''6'', S ''7'']\<rparr> = Inr ''5-7''"
    using compressed_str_runs [of ascending "\<lparr>r_text = ''5-7'', result_type = RT_str,
        line_prefix = [], slot_prefix = [], range_text = ''5-7'',
        r_list = [S ''5'', S ''6'', S ''7'']\<rparr>" "[5, 6, 7]"] is_list_set_ascending c
    by (simp add: sp)
  from is_list_set_ascending a 1 b 2 c 3 show ?thesis by (intro conjI)
qed

end
